theory Spec2Isabelle
  imports Complex_Main "HOL-Library.Monad_Syntax"
begin

section \<open>Data model of \<^verbatim>\<open>src/utils/geometry.ts\<close>\<close>

text \<open>
  A GeoJSON position is a coordinate pair. JavaScript numbers are modelled as real
  numbers: rounding, infinities and NaN are outside the model.
\<close>

type_synonym position = "real \<times> real"

text \<open>
  The geometry of a \<^verbatim>\<open>Feature<Polygon | MultiPolygon>\<close>: a polygon is a list of rings
  (the first one the exterior ring), a multi-polygon a list of such ring groups.
\<close>

datatype geometry = Polygon "position list list" | MultiPolygon "position list list list"

record feature =
  geometry :: geometry

text \<open>A \<^verbatim>\<open>Feature<LineString>\<close>, as built by \<^verbatim>\<open>turf.lineString\<close>.\<close>

record line_feature =
  coordinates :: "position list"

definition lineString :: "position list \<Rightarrow> line_feature" where
  "lineString cs = \<lparr>coordinates = cs\<rparr>"

section \<open>Boundary sampler\<close>

text \<open>
  The point pushed by the innermost loop of \<^verbatim>\<open>samplePerimeterPoints\<close> for the counter
  \<open>s\<close>: \<^verbatim>\<open>t = s / Math.ceil(targetPerRing / (ring.length - 1))\<close> and
  \<^verbatim>\<open>[a[0] + (b[0] - a[0]) * t, a[1] + (b[1] - a[1]) * t]\<close>.
\<close>

definition samplePoint :: "position \<Rightarrow> position \<Rightarrow> real \<Rightarrow> nat \<Rightarrow> nat \<Rightarrow> position" where
  "samplePoint a b targetPerRing len s =
     (let t = real s / real_of_int \<lceil>targetPerRing / (real len - 1)\<rceil>
      in (fst a + (fst b - fst a) * t, snd a + (snd b - snd a) * t))"

text \<open>
  \<^verbatim>\<open>for (let s = 1; s < targetPerRing / (ring.length - 1); s++)\<close>, started at \<open>s\<close> with
  the positions pushed so far.
\<close>

function sampleSteps ::
  "position \<Rightarrow> position \<Rightarrow> real \<Rightarrow> nat \<Rightarrow> nat \<Rightarrow> position list \<Rightarrow> position list" where
  "sampleSteps a b targetPerRing len s positions =
     (if real s < targetPerRing / (real len - 1)
      then sampleSteps a b targetPerRing len (s + 1)
             (positions @ [samplePoint a b targetPerRing len s])
      else positions)"
  by pat_completeness auto
termination
proof (relation "measure (\<lambda>(a, b, targetPerRing, len, s, positions).
          nat \<lceil>targetPerRing / (real len - 1)\<rceil> - s)")
  show "wf (measure (\<lambda>(a, b, targetPerRing, len, s, positions).
          nat \<lceil>targetPerRing / (real len - 1)\<rceil> - s))"
    by simp
next
  fix a b :: position and targetPerRing :: real and len s :: nat and positions :: "position list"
  assume "real s < targetPerRing / (real len - 1)"
  then have "int s < \<lceil>targetPerRing / (real len - 1)\<rceil>"
    by (simp add: less_ceiling_iff)
  then show "((a, b, targetPerRing, len, s + 1, positions @ [samplePoint a b targetPerRing len s]),
              (a, b, targetPerRing, len, s, positions))
             \<in> measure (\<lambda>(a, b, targetPerRing, len, s, positions).
                  nat \<lceil>targetPerRing / (real len - 1)\<rceil> - s)"
    by simp
qed

declare sampleSteps.simps [simp del]

text \<open>\<^verbatim>\<open>for (let i = 0; i + 1 < ring.length; i++)\<close>, started at \<open>i\<close>.\<close>

function sampleEdges :: "position list \<Rightarrow> real \<Rightarrow> nat \<Rightarrow> position list \<Rightarrow> position list" where
  "sampleEdges ring targetPerRing i positions =
     (if i + 1 < length ring
      then sampleEdges ring targetPerRing (i + 1)
             (sampleSteps (ring ! i) (ring ! (i + 1)) targetPerRing (length ring) 1 positions)
      else positions)"
  by pat_completeness auto
termination
  by (relation "measure (\<lambda>(ring, targetPerRing, i, positions). length ring - i)") auto

declare sampleEdges.simps [simp del]

text \<open>
  \<^verbatim>\<open>for (const poly of polys)\<close>: a ring group without rings is skipped; otherwise the
  vertices of its first ring are pushed, then the points along its edges.
\<close>

fun samplePolys :: "position list list list \<Rightarrow> real \<Rightarrow> position list \<Rightarrow> position list" where
  "samplePolys [] targetPerRing positions = positions"
| "samplePolys ([] # polys) targetPerRing positions = samplePolys polys targetPerRing positions"
| "samplePolys ((ring # holes) # polys) targetPerRing positions =
     samplePolys polys targetPerRing (sampleEdges ring targetPerRing 0 (positions @ ring))"

definition samplePerimeterPoints :: "feature \<Rightarrow> real \<Rightarrow> position list" where
  "samplePerimeterPoints p targetPerRing =
     samplePolys (case geometry p of Polygon cs \<Rightarrow> [cs] | MultiPolygon css \<Rightarrow> css)
       targetPerRing []"

section \<open>The geometry library\<close>

text \<open>
  The functions of \<^verbatim>\<open>@turf/turf\<close> that the module calls are parameters of the model.
  \<^item> \<open>turf_distance\<close> is \<^verbatim>\<open>turf.distance(p, q, {units: "kilometers"})\<close>; the value
    \<open>None\<close> stands for a call that throws, which \<^verbatim>\<open>bboxDiagonalKm\<close> catches.
  \<^item> \<open>turf_length\<close> is \<^verbatim>\<open>turf.length(seg, {units: "kilometers"})\<close>.
  \<^item> \<open>turf_bbox\<close> is \<^verbatim>\<open>turf.bbox\<close> of the feature collection of the given features.
  \<^item> \<open>turf_centroid\<close> is \<^verbatim>\<open>turf.getCoord(turf.centroid(f))\<close>; the value \<open>None\<close>
    stands for a call that throws, which the module does not catch.
  \<^item> \<open>turf_buffer\<close> is \<^verbatim>\<open>turf.buffer(seg, w, {units: "kilometers"})\<close>.
  \<^item> \<open>turf_union\<close> is \<^verbatim>\<open>turf.union(x, y)\<close>; the value \<open>None\<close> stands for the result
    \<^verbatim>\<open>null\<close>.
  \<^verbatim>\<open>turf.clone\<close> returns an equal value and is the identity of the model;
  \<^verbatim>\<open>turf.length\<close>, \<^verbatim>\<open>turf.bbox\<close>, \<^verbatim>\<open>turf.buffer\<close> and \<^verbatim>\<open>turf.lineString\<close> are taken to
  return.
\<close>

record turf =
  turf_distance :: "position \<Rightarrow> position \<Rightarrow> real option"
  turf_length :: "line_feature \<Rightarrow> real"
  turf_bbox :: "feature list \<Rightarrow> real \<times> real \<times> real \<times> real"
  turf_centroid :: "feature \<Rightarrow> position option"
  turf_buffer :: "line_feature \<Rightarrow> real \<Rightarrow> feature"
  turf_union :: "feature \<Rightarrow> feature \<Rightarrow> feature option"

text \<open>
  The ways in which the merge can throw: its own \<^verbatim>\<open>Error("Union failed")\<close>, and an
  exception of \<^verbatim>\<open>turf.distance\<close> or of \<^verbatim>\<open>turf.centroid\<close> that is not caught.
\<close>

datatype error = UnionFailed | TurfError

section \<open>Pairwise connector\<close>

record best =
  best_pa :: position
  best_pb :: position
  best_d :: real

text \<open>\<^verbatim>\<open>for (const pb of samplesB)\<close> with \<^verbatim>\<open>if (!best || d < best.d) best = {pa, pb, d}\<close>.\<close>

fun scanB :: "turf \<Rightarrow> position \<Rightarrow> position list \<Rightarrow> best option \<Rightarrow> error + best option" where
  "scanB lib pa [] bst = Inr bst"
| "scanB lib pa (pb # samplesB) bst =
     (case turf_distance lib pa pb of
        None \<Rightarrow> Inl TurfError
      | Some d \<Rightarrow>
          scanB lib pa samplesB
            (case bst of
               None \<Rightarrow> Some \<lparr>best_pa = pa, best_pb = pb, best_d = d\<rparr>
             | Some cur \<Rightarrow>
                 if d < best_d cur then Some \<lparr>best_pa = pa, best_pb = pb, best_d = d\<rparr>
                 else Some cur))"

text \<open>\<^verbatim>\<open>for (const pa of samplesA)\<close>.\<close>

fun scanA :: "turf \<Rightarrow> position list \<Rightarrow> position list \<Rightarrow> best option \<Rightarrow> error + best option" where
  "scanA lib [] samplesB bst = Inr bst"
| "scanA lib (pa # samplesA) samplesB bst =
     (case scanB lib pa samplesB bst of
        Inl e \<Rightarrow> Inl e
      | Inr bst' \<Rightarrow> scanA lib samplesA samplesB bst')"

text \<open>
  The two loops, then the fallback \<^verbatim>\<open>if (!best)\<close>, which calls \<^verbatim>\<open>turf.centroid\<close> on \<open>a\<close> and
  then on \<open>b\<close>.
\<close>

definition shortestSegmentBetween :: "turf \<Rightarrow> feature \<Rightarrow> feature \<Rightarrow> error + line_feature" where
  "shortestSegmentBetween lib a b =
     (let samplesA = samplePerimeterPoints a 24;
          samplesB = samplePerimeterPoints b 24
      in case scanA lib samplesA samplesB None of
           Inl e \<Rightarrow> Inl e
         | Inr None \<Rightarrow>
             (case turf_centroid lib a of
                None \<Rightarrow> Inl TurfError
              | Some ca \<Rightarrow>
                  (case turf_centroid lib b of
                     None \<Rightarrow> Inl TurfError
                   | Some cb \<Rightarrow> Inr (lineString [ca, cb])))
         | Inr (Some bst) \<Rightarrow> Inr (lineString [best_pa bst, best_pb bst]))"

section \<open>Corridor width\<close>

text \<open>
  \<^verbatim>\<open>bboxDiagonalKm\<close>: the distance of the two corners of the bounding box, and 1 when
  \<^verbatim>\<open>turf.distance\<close> throws.
\<close>

definition bboxDiagonalKm :: "turf \<Rightarrow> real \<times> real \<times> real \<times> real \<Rightarrow> real" where
  "bboxDiagonalKm lib bb =
     (case bb of (minX, minY, maxX, maxY) \<Rightarrow>
        (case turf_distance lib (minX, minY) (maxX, maxY) of
           Some km \<Rightarrow> km
         | None \<Rightarrow> 1))"

text \<open>The optional argument \<^verbatim>\<open>options?: { corridorFactor?: number }\<close>.\<close>

record options =
  corridorFactor :: "real option"

text \<open>
  \<^verbatim>\<open>(diagKm || 1) * 0.02 * (options?.corridorFactor ?? 1)\<close>. Of the real numbers only 0
  is falsy; a missing \<^verbatim>\<open>options\<close> or a missing field gives the factor 1.
\<close>

definition corridorWidthKm :: "turf \<Rightarrow> feature list \<Rightarrow> options option \<Rightarrow> real" where
  "corridorWidthKm lib polys opts =
     (let bboxAll = turf_bbox lib polys;
          diagKm = bboxDiagonalKm lib bboxAll
      in (if diagKm = 0 then 1 else diagKm) * 0.02 *
         (case opts of
            None \<Rightarrow> 1
          | Some os \<Rightarrow> (case corridorFactor os of None \<Rightarrow> 1 | Some factor \<Rightarrow> factor)))"

section \<open>Connection graph\<close>

record edge =
  edge_a :: nat
  edge_b :: nat
  edge_distance :: real
  edge_seg :: line_feature

text \<open>\<^verbatim>\<open>for (let j = i + 1; j < n; j++)\<close>, started at \<open>j\<close>.\<close>

function edgesInner :: "turf \<Rightarrow> feature list \<Rightarrow> nat \<Rightarrow> nat \<Rightarrow> edge list \<Rightarrow> error + edge list" where
  "edgesInner lib polys i j edges =
     (if j < length polys
      then (case shortestSegmentBetween lib (polys ! i) (polys ! j) of
              Inl e \<Rightarrow> Inl e
            | Inr sg \<Rightarrow>
                edgesInner lib polys i (j + 1)
                  (edges @ [\<lparr>edge_a = i, edge_b = j, edge_distance = turf_length lib sg,
                             edge_seg = sg\<rparr>]))
      else Inr edges)"
  by pat_completeness auto
termination
  by (relation "measure (\<lambda>(lib, polys, i, j, edges). length polys - j)") auto

declare edgesInner.simps [simp del]

text \<open>\<^verbatim>\<open>for (let i = 0; i < n; i++)\<close>, started at \<open>i\<close>.\<close>

function edgesOuter :: "turf \<Rightarrow> feature list \<Rightarrow> nat \<Rightarrow> edge list \<Rightarrow> error + edge list" where
  "edgesOuter lib polys i edges =
     (if i < length polys
      then (case edgesInner lib polys i (i + 1) edges of
              Inl e \<Rightarrow> Inl e
            | Inr edges' \<Rightarrow> edgesOuter lib polys (i + 1) edges')
      else Inr edges)"
  by pat_completeness auto
termination
  by (relation "measure (\<lambda>(lib, polys, i, edges). length polys - i)") auto

declare edgesOuter.simps [simp del]

text \<open>
  \<^verbatim>\<open>edges.sort((x, y) => x.distance - y.distance)\<close>: the comparator is a consistent
  order on real distances, and \<^verbatim>\<open>Array.prototype.sort\<close> is stable, so the result is the
  stable sort by distance.
\<close>

definition sortEdges :: "edge list \<Rightarrow> edge list" where
  "sortEdges edges = sort_key edge_distance edges"

section \<open>Disjoint sets\<close>

record unionFind =
  parent :: "nat list"
  rank :: "nat list"

text \<open>The constructor \<^verbatim>\<open>new UnionFind(n)\<close>.\<close>

definition newUnionFind :: "nat \<Rightarrow> unionFind" where
  "newUnionFind n = \<lparr>parent = [0..<n], rank = replicate n 0\<rparr>"

text \<open>
  \<^verbatim>\<open>find(x)\<close> returns the changed structure with the result. \<open>None\<close> is a call that does
  not return (a cycle of parents). An index outside the array is outside the model and
  gives \<open>None\<close> as well: the merge calls \<^verbatim>\<open>find\<close> only on indices below \<open>n\<close>.
\<close>

partial_function (option) uf_find :: "unionFind \<Rightarrow> nat \<Rightarrow> (unionFind \<times> nat) option" where
  "uf_find uf x =
     (if x < length (parent uf)
      then (if parent uf ! x \<noteq> x
            then do {
              (uf', r) \<leftarrow> uf_find uf (parent uf ! x);
              (let uf'' = uf'\<lparr>parent := (parent uf')[x := r]\<rparr>
               in Some (uf'', parent uf'' ! x))
            }
            else Some (uf, parent uf ! x))
      else None)"

declare uf_find.simps [code]

text \<open>
  \<^verbatim>\<open>union(a, b)\<close>. The ranks are read at the two roots; a root outside the rank array
  is outside the model and gives \<open>None\<close>.
\<close>

definition uf_union :: "unionFind \<Rightarrow> nat \<Rightarrow> nat \<Rightarrow> unionFind option" where
  "uf_union uf a b =
     do {
       (uf1, ra) \<leftarrow> uf_find uf a;
       (uf2, rb) \<leftarrow> uf_find uf1 b;
       (if ra = rb then Some uf2
        else if \<not> (ra < length (rank uf2) \<and> rb < length (rank uf2)) then None
        else if rank uf2 ! ra < rank uf2 ! rb
          then Some (uf2\<lparr>parent := (parent uf2)[ra := rb]\<rparr>)
        else if rank uf2 ! ra > rank uf2 ! rb
          then Some (uf2\<lparr>parent := (parent uf2)[rb := ra]\<rparr>)
        else Some (uf2\<lparr>parent := (parent uf2)[rb := ra],
                        rank := (rank uf2)[ra := rank uf2 ! ra + 1]\<rparr>))
     }"

section \<open>Kruskal's scan\<close>

record mst_edge =
  mst_a :: nat
  mst_b :: nat
  mst_seg :: line_feature

text \<open>
  \<^verbatim>\<open>for (const e of edges)\<close> with the \<^verbatim>\<open>break\<close> at \<^verbatim>\<open>mstEdges.length === n - 1\<close>; the
  comparison is on integers, since \<open>n - 1\<close> is negative for \<open>n = 0\<close>.
\<close>

fun kruskalLoop ::
  "nat \<Rightarrow> edge list \<Rightarrow> unionFind \<Rightarrow> mst_edge list \<Rightarrow> (unionFind \<times> mst_edge list) option" where
  "kruskalLoop n [] uf mstEdges = Some (uf, mstEdges)"
| "kruskalLoop n (e # edges) uf mstEdges =
     (case uf_find uf (edge_a e) of
        None \<Rightarrow> None
      | Some (uf1, ra) \<Rightarrow>
          (case uf_find uf1 (edge_b e) of
             None \<Rightarrow> None
           | Some (uf2, rb) \<Rightarrow>
               if ra \<noteq> rb
               then (case uf_union uf2 (edge_a e) (edge_b e) of
                       None \<Rightarrow> None
                     | Some uf3 \<Rightarrow>
                         (let mstEdges' = mstEdges @
                                [\<lparr>mst_a = edge_a e, mst_b = edge_b e, mst_seg = edge_seg e\<rparr>]
                          in if int (length mstEdges') = int n - 1 then Some (uf3, mstEdges')
                             else kruskalLoop n edges uf3 mstEdges'))
               else kruskalLoop n edges uf2 mstEdges))"

section \<open>Corridors, union and the merge\<close>

text \<open>
  \<^verbatim>\<open>for (const piece of allPieces) accumulated = accumulated ? turf.union(accumulated, piece) : piece\<close>.
\<close>

fun unionPieces :: "turf \<Rightarrow> feature list \<Rightarrow> feature option \<Rightarrow> feature option" where
  "unionPieces lib [] accumulated = accumulated"
| "unionPieces lib (piece # pieces) accumulated =
     unionPieces lib pieces
       (case accumulated of
          None \<Rightarrow> Some piece
        | Some acc \<Rightarrow> turf_union lib acc piece)"

record mergeDebug =
  pairs :: "edge list"
  mstEdges :: "mst_edge list"
  corridorPolygons :: "feature list"

record mergeResult =
  result_output :: feature
  result_debug :: mergeDebug

text \<open>
  The exported function. The outer \<open>option\<close> is \<open>None\<close> when the call does not return;
  \<open>Some (Inl e)\<close> is a thrown error and \<open>Some (Inr r)\<close> the returned value.
\<close>

definition mergePolygonsWithShortestCorridors ::
  "turf \<Rightarrow> feature list \<Rightarrow> options option \<Rightarrow> (error + mergeResult) option" where
  "mergePolygonsWithShortestCorridors lib features opts =
     (let polys = features;
          n = length polys
      in case polys of
           [single] \<Rightarrow>
             Some (Inr \<lparr>result_output = single,
                        result_debug = \<lparr>pairs = [], mstEdges = [], corridorPolygons = []\<rparr>\<rparr>)
         | _ \<Rightarrow>
            (let width = corridorWidthKm lib polys opts
             in case edgesOuter lib polys 0 [] of
                  Inl e \<Rightarrow> Some (Inl e)
                | Inr unsorted \<Rightarrow>
                   (let edges = sortEdges unsorted
                    in case kruskalLoop n edges (newUnionFind n) [] of
                         None \<Rightarrow> None
                       | Some (uf, mst) \<Rightarrow>
                          (let corridors = map (\<lambda>e. turf_buffer lib (mst_seg e) width) mst;
                               allPieces = polys @ corridors
                           in case unionPieces lib allPieces None of
                                None \<Rightarrow> Some (Inl UnionFailed)
                              | Some accumulated \<Rightarrow>
                                  Some (Inr \<lparr>result_output = accumulated,
                                             result_debug = \<lparr>pairs = edges, mstEdges = mst,
                                                      corridorPolygons = corridors\<rparr>\<rparr>)))))"

section \<open>Auxiliary notions for the statements\<close>

subsection \<open>Sampler\<close>

text \<open>
  The points strictly inside the edge from \<open>a\<close> to \<open>b\<close> at the parameters \<open>s / c\<close> for
  \<open>s = 1, \<dots>, c - 1\<close>, where \<open>c\<close> is \<open>targetPerRing / (len - 1)\<close> rounded up.
\<close>

definition edgePoints :: "position \<Rightarrow> position \<Rightarrow> real \<Rightarrow> nat \<Rightarrow> position list" where
  "edgePoints a b targetPerRing len =
     map (samplePoint a b targetPerRing len) [1..<nat \<lceil>targetPerRing / (real len - 1)\<rceil>]"

text \<open>The samples of one ring: its vertices, then the points of its edges in order.\<close>

definition ringSamples :: "real \<Rightarrow> position list \<Rightarrow> position list" where
  "ringSamples targetPerRing ring =
     ring @ concat (map (\<lambda>i. edgePoints (ring ! i) (ring ! (i + 1)) targetPerRing (length ring))
                      [0..<length ring - 1])"

text \<open>The samples of one ring group: those of its first ring, if there is one.\<close>

definition groupSamples :: "real \<Rightarrow> position list list \<Rightarrow> position list" where
  "groupSamples targetPerRing poly =
     (case poly of [] \<Rightarrow> [] | ring # holes \<Rightarrow> ringSamples targetPerRing ring)"

definition unitSquare :: feature where
  "unitSquare = \<lparr>geometry = Polygon [[(0, 0), (1, 0), (1, 1), (0, 1), (0, 0)]]\<rparr>"

subsection \<open>An instance of the geometry library\<close>

text \<open>
  A small planar instance of the library parameters, with the taxicab distance, at which
  the theorems below are instantiated. Its centroid is the first vertex of the shape, and
  throws on a shape without coordinates.
\<close>

definition taxicab :: "position \<Rightarrow> position \<Rightarrow> real" where
  "taxicab p q = \<bar>fst p - fst q\<bar> + \<bar>snd p - snd q\<bar>"

definition ringGroups :: "feature \<Rightarrow> position list list list" where
  "ringGroups f = (case geometry f of Polygon cs \<Rightarrow> [cs] | MultiPolygon css \<Rightarrow> css)"

definition vertices :: "feature \<Rightarrow> position list" where
  "vertices f = concat (concat (ringGroups f))"

definition planarBbox :: "feature list \<Rightarrow> real \<times> real \<times> real \<times> real" where
  "planarBbox fs =
     (case concat (map vertices fs) of
        [] \<Rightarrow> (0, 0, 0, 0)
      | p # ps \<Rightarrow>
          (fold min (map fst ps) (fst p), fold min (map snd ps) (snd p),
           fold max (map fst ps) (fst p), fold max (map snd ps) (snd p)))"

definition planarTurf :: turf where
  "planarTurf =
     \<lparr>turf_distance = (\<lambda>p q. Some (taxicab p q)),
      turf_length = (\<lambda>l. case coordinates l of [p, q] \<Rightarrow> taxicab p q | _ \<Rightarrow> 0),
      turf_bbox = planarBbox,
      turf_centroid = (\<lambda>f. case vertices f of [] \<Rightarrow> None | p # ps \<Rightarrow> Some p),
      turf_buffer = (\<lambda>l w. \<lparr>geometry = Polygon [coordinates l]\<rparr>),
      turf_union = (\<lambda>x y. Some \<lparr>geometry = MultiPolygon (ringGroups x @ ringGroups y)\<rparr>)\<rparr>"

text \<open>Three one-vertex shapes, at \<open>(0, 0)\<close>, \<open>(3, 0)\<close> and \<open>(0, 4)\<close>.\<close>

definition dot :: "real \<Rightarrow> real \<Rightarrow> feature" where
  "dot x y = \<lparr>geometry = Polygon [[(x, y)]]\<rparr>"

definition threeDots :: "feature list" where
  "threeDots = [dot 0 0, dot 3 0, dot 0 4]"

text \<open>
  The connector does not throw on the shapes \<open>polys\<close>: \<^verbatim>\<open>turf.distance\<close> does not throw,
  and \<^verbatim>\<open>turf.centroid\<close> does not throw on the shapes if one of them has no sample point
  (only then is it called). Nothing is asked of \<^verbatim>\<open>turf.union\<close>.
\<close>

definition turf_returns :: "turf \<Rightarrow> feature list \<Rightarrow> bool" where
  "turf_returns lib polys \<longleftrightarrow>
     (\<forall>p q. turf_distance lib p q \<noteq> None)
     \<and> ((\<exists>f \<in> set polys. samplePerimeterPoints f 24 = []) \<longrightarrow>
          (\<forall>g \<in> set polys. turf_centroid lib g \<noteq> None))"





subsection \<open>Representatives and connectivity\<close>

text \<open>
  \<open>rep l x r\<close>: following the parent pointers of the array \<open>l\<close> from the index \<open>x\<close>
  arrives at the root \<open>r\<close>.
\<close>

inductive rep :: "nat list \<Rightarrow> nat \<Rightarrow> nat \<Rightarrow> bool" for l :: "nat list" where
  rep_root: "x < length l \<Longrightarrow> l ! x = x \<Longrightarrow> rep l x x"
| rep_step: "x < length l \<Longrightarrow> l ! x \<noteq> x \<Longrightarrow> rep l (l ! x) r \<Longrightarrow> rep l x r"

text \<open>
  \<open>on_path l x y\<close>: the index \<open>y\<close> is met when following the parent pointers of the
  array \<open>l\<close> from the index \<open>x\<close>, the start \<open>x\<close> and the root included.
\<close>

inductive on_path :: "nat list \<Rightarrow> nat \<Rightarrow> nat \<Rightarrow> bool" for l :: "nat list" where
  on_path_start: "x < length l \<Longrightarrow> on_path l x x"
| on_path_step: "x < length l \<Longrightarrow> l ! x \<noteq> x \<Longrightarrow> on_path l (l ! x) y \<Longrightarrow> on_path l x y"

text \<open>
  A well-formed structure: the two arrays have the same length and every index has a
  root.
\<close>

definition uf_inv :: "unionFind \<Rightarrow> bool" where
  "uf_inv uf \<longleftrightarrow>
     length (rank uf) = length (parent uf) \<and>
     (\<forall>x < length (parent uf). \<exists>r. rep (parent uf) x r)"

text \<open>The representative that \<^verbatim>\<open>find(x)\<close> returns, if it returns.\<close>

definition find_rep :: "unionFind \<Rightarrow> nat \<Rightarrow> nat option" where
  "find_rep uf x = map_option snd (uf_find uf x)"

text \<open>The end points of an edge, and the edge that Kruskal's scan records for it.\<close>

definition ends :: "edge \<Rightarrow> nat \<times> nat" where
  "ends e = (edge_a e, edge_b e)"

definition mst_ends :: "mst_edge \<Rightarrow> nat \<times> nat" where
  "mst_ends m = (mst_a m, mst_b m)"

definition toMst :: "edge \<Rightarrow> mst_edge" where
  "toMst e = \<lparr>mst_a = edge_a e, mst_b = edge_b e, mst_seg = edge_seg e\<rparr>"

text \<open>
  \<open>conn E\<close>: the pairs of indices joined, directly or transitively, by edges with end
  points in \<open>E\<close>, read in both directions.
\<close>

definition conn :: "(nat \<times> nat) set \<Rightarrow> (nat \<times> nat) set" where
  "conn E = (E \<union> E\<inverse>)\<^sup>*"

text \<open>The roots of the structure.\<close>

definition roots :: "unionFind \<Rightarrow> nat set" where
  "roots uf = {x. x < length (parent uf) \<and> parent uf ! x = x}"

text \<open>
  The state of Kruskal's scan: a well-formed structure over \<open>n\<close> indices whose sets are
  the connected components of the accepted edges, with one root less for each accepted
  edge.
\<close>

definition kruskal_inv :: "nat \<Rightarrow> unionFind \<Rightarrow> mst_edge list \<Rightarrow> bool" where
  "kruskal_inv n uf mst \<longleftrightarrow>
     uf_inv uf \<and> length (parent uf) = n \<and>
     (\<forall>i < n. \<forall>j < n. (\<exists>r. rep (parent uf) i r \<and> rep (parent uf) j r)
                       \<longleftrightarrow> (i, j) \<in> conn (mst_ends ` set mst)) \<and>
     card (roots uf) + length mst = n"

text \<open>
  Kruskal's scan on the level of the graph: an edge is accepted when its end points are
  not yet connected by the accepted edges, and the scan stops at \<open>n - 1\<close> accepted edges.
\<close>

fun kruskalSel :: "nat \<Rightarrow> edge list \<Rightarrow> edge list \<Rightarrow> edge list" where
  "kruskalSel n [] acc = acc"
| "kruskalSel n (e # es) acc =
     (if ends e \<in> conn (ends ` set acc) then kruskalSel n es acc
      else if int (length acc) + 1 = int n - 1 then acc @ [e]
      else kruskalSel n es (acc @ [e]))"

subsection \<open>Connector and graph builder\<close>

text \<open>
  The scan of \<^verbatim>\<open>shortestSegmentBetween\<close> over a list of pairs; the pairs of the two
  nested loops are \<open>List.product samplesA samplesB\<close>, in that order.
\<close>

fun scanPairs :: "turf \<Rightarrow> (position \<times> position) list \<Rightarrow> best option \<Rightarrow> error + best option" where
  "scanPairs lib [] bst = Inr bst"
| "scanPairs lib (p # ps) bst =
     (case turf_distance lib (fst p) (snd p) of
        None \<Rightarrow> Inl TurfError
      | Some d \<Rightarrow>
          scanPairs lib ps
            (case bst of
               None \<Rightarrow> Some \<lparr>best_pa = fst p, best_pb = snd p, best_d = d\<rparr>
             | Some cur \<Rightarrow>
                 if d < best_d cur then Some \<lparr>best_pa = fst p, best_pb = snd p, best_d = d\<rparr>
                 else Some cur))"

text \<open>The distance of a pair of positions, where \<^verbatim>\<open>turf.distance\<close> returns.\<close>

definition pair_km :: "turf \<Rightarrow> position \<times> position \<Rightarrow> real" where
  "pair_km lib p = the (turf_distance lib (fst p) (snd p))"

text \<open>
  \<open>first_min ps cur\<close>: the record \<open>cur\<close> holds a pair of \<open>ps\<close> at some position \<open>k\<close>
  with its distance, no pair of \<open>ps\<close> is closer, and every pair before position \<open>k\<close>
  is strictly farther.
\<close>

definition first_min :: "turf \<Rightarrow> (position \<times> position) list \<Rightarrow> best \<Rightarrow> bool" where
  "first_min lib ps cur \<longleftrightarrow>
     (\<exists>k < length ps. ps ! k = (best_pa cur, best_pb cur) \<and> best_d cur = pair_km lib (ps ! k)
        \<and> (\<forall>j < length ps. pair_km lib (ps ! k) \<le> pair_km lib (ps ! j))
        \<and> (\<forall>j < k. pair_km lib (ps ! k) < pair_km lib (ps ! j)))"

text \<open>The index pairs \<open>(i, j)\<close> with \<open>i < j < n\<close>, in the order of the two loops.\<close>

definition indexPairs :: "nat \<Rightarrow> (nat \<times> nat) list" where
  "indexPairs n = concat (map (\<lambda>i. map (Pair i) [i + 1..<n]) [0..<n])"

text \<open>The edge that the builder pushes for the index pair \<open>(i, j)\<close>, where the connector returns.\<close>

definition mkEdge :: "turf \<Rightarrow> feature list \<Rightarrow> nat \<times> nat \<Rightarrow> edge" where
  "mkEdge lib polys ij =
     (let sg = projr (shortestSegmentBetween lib (polys ! fst ij) (polys ! snd ij))
      in \<lparr>edge_a = fst ij, edge_b = snd ij, edge_distance = turf_length lib sg, edge_seg = sg\<rparr>)"

text \<open>The sorted edge list of the complete graph, where the connector returns.\<close>

definition connectionEdges :: "turf \<Rightarrow> feature list \<Rightarrow> edge list" where
  "connectionEdges lib polys = sortEdges (map (mkEdge lib polys) (indexPairs (length polys)))"

text \<open>The left fold of \<^verbatim>\<open>turf.union\<close> over the pieces after the first one.\<close>

definition unionFold :: "turf \<Rightarrow> feature \<Rightarrow> feature list \<Rightarrow> feature" where
  "unionFold lib first pieces = foldl (\<lambda>acc piece. the (turf_union lib acc piece)) first pieces"

subsection \<open>The merge of the three dots\<close>

definition threeDotsResult :: mergeResult where
  "threeDotsResult =
     \<lparr>result_output =
        \<lparr>geometry = MultiPolygon [[[(0, 0)]], [[(3, 0)]], [[(0, 4)]], [[(0, 0), (3, 0)]],
                                   [[(0, 0), (0, 4)]]]\<rparr>,
      result_debug =
        \<lparr>pairs =
           [\<lparr>edge_a = 0, edge_b = 1, edge_distance = 3,
              edge_seg = \<lparr>coordinates = [(0, 0), (3, 0)]\<rparr>\<rparr>,
            \<lparr>edge_a = 0, edge_b = 2, edge_distance = 4,
              edge_seg = \<lparr>coordinates = [(0, 0), (0, 4)]\<rparr>\<rparr>,
            \<lparr>edge_a = 1, edge_b = 2, edge_distance = 7,
              edge_seg = \<lparr>coordinates = [(3, 0), (0, 4)]\<rparr>\<rparr>],
         mstEdges =
           [\<lparr>mst_a = 0, mst_b = 1, mst_seg = \<lparr>coordinates = [(0, 0), (3, 0)]\<rparr>\<rparr>,
            \<lparr>mst_a = 0, mst_b = 2, mst_seg = \<lparr>coordinates = [(0, 0), (0, 4)]\<rparr>\<rparr>],
         corridorPolygons =
           [\<lparr>geometry = Polygon [[(0, 0), (3, 0)]]\<rparr>,
            \<lparr>geometry = Polygon [[(0, 0), (0, 4)]]\<rparr>]\<rparr>\<rparr>"

subsection \<open>Spanning trees\<close>

text \<open>The number of connected components of the graph on the indices below \<open>n\<close>.\<close>

definition comps :: "nat \<Rightarrow> (nat \<times> nat) set \<Rightarrow> nat" where
  "comps n E = card ((\<lambda>x. conn E `` {x}) ` {..<n})"

text \<open>
  A set of edges has no cycle when no edge joins two indices that the other edges of
  the set connect already.
\<close>

definition acyclic_edges :: "edge set \<Rightarrow> bool" where
  "acyclic_edges T \<longleftrightarrow> (\<forall>e \<in> T. ends e \<notin> conn (ends ` (T - {e})))"

text \<open>
  A spanning tree of the indices below \<open>n\<close>: finitely many edges between these
  indices that connect all of them and have no cycle.
\<close>

definition spanning_tree :: "nat \<Rightarrow> edge set \<Rightarrow> bool" where
  "spanning_tree n T \<longleftrightarrow>
     finite T \<and> (\<forall>e \<in> T. edge_a e < n \<and> edge_b e < n) \<and>
     (\<forall>i < n. \<forall>j < n. (i, j) \<in> conn (ends ` T)) \<and> acyclic_edges T"

text \<open>Kruskal's scan on the level of the graph without the early exit.\<close>

fun kruskalAll :: "edge list \<Rightarrow> edge list \<Rightarrow> edge list" where
  "kruskalAll [] acc = acc"
| "kruskalAll (e # es) acc =
     (if ends e \<in> conn (ends ` set acc) then kruskalAll es acc
      else kruskalAll es (acc @ [e]))"

text \<open>The sum of the segment lengths of the accepted edges.\<close>

definition mstDistance :: "turf \<Rightarrow> mst_edge list \<Rightarrow> real" where
  "mstDistance lib mst = sum_list (map (\<lambda>m. turf_length lib (mst_seg m)) mst)"

section \<open>The boundary sampler\<close>

lemma sampleSteps_eq:
  "sampleSteps a b t len s ps =
     ps @ map (samplePoint a b t len) [s..<nat \<lceil>t / (real len - 1)\<rceil>]"
proof (induction a b t len s ps rule: sampleSteps.induct)
  case (1 a b t len s ps)
  show ?case
  proof (cases "real s < t / (real len - 1)")
    case True
    then have "int s < \<lceil>t / (real len - 1)\<rceil>"
      by (simp add: less_ceiling_iff)
    then have "s < nat \<lceil>t / (real len - 1)\<rceil>"
      by linarith
    then have "[s..<nat \<lceil>t / (real len - 1)\<rceil>] = s # [s + 1..<nat \<lceil>t / (real len - 1)\<rceil>]"
      by (simp add: upt_conv_Cons)
    with True 1 show ?thesis
      by (subst sampleSteps.simps) simp
  next
    case False
    then have "\<lceil>t / (real len - 1)\<rceil> \<le> int s"
      by (simp add: ceiling_le_iff)
    then have "nat \<lceil>t / (real len - 1)\<rceil> \<le> s"
      by linarith
    with False show ?thesis
      by (subst sampleSteps.simps) simp
  qed
qed

lemma sampleEdges_eq:
  "sampleEdges ring t i ps =
     ps @ concat (map (\<lambda>k. edgePoints (ring ! k) (ring ! (k + 1)) t (length ring))
                    [i..<length ring - 1])"
proof (induction ring t i ps rule: sampleEdges.induct)
  case (1 ring t i ps)
  show ?case
  proof (cases "i + 1 < length ring")
    case True
    then have "[i..<length ring - 1] = i # [i + 1..<length ring - 1]"
      by (simp add: upt_conv_Cons)
    with True 1 show ?thesis
      by (subst sampleEdges.simps) (simp add: sampleSteps_eq edgePoints_def)
  next
    case False
    then show ?thesis
      by (subst sampleEdges.simps) simp
  qed
qed

lemma groupSamples_simps:
  "groupSamples t [] = []"
  "groupSamples t (ring # holes) =
     ring @ concat (map (\<lambda>i. edgePoints (ring ! i) (ring ! (i + 1)) t (length ring))
                      [0..<length ring - 1])"
  by (simp_all add: groupSamples_def ringSamples_def)

lemma samplePolys_eq:
  "samplePolys polys t ps = ps @ concat (map (groupSamples t) polys)"
  by (induction polys t ps rule: samplePolys.induct)
     (simp_all add: groupSamples_simps sampleEdges_eq)

lemma length_edgePoints:
  "length (edgePoints a b t len) = nat \<lceil>t / (real len - 1)\<rceil> - 1"
  by (simp add: edgePoints_def)

lemma length_samples_unitSquare: "length (samplePerimeterPoints unitSquare 24) = 25"
  by (simp add: samplePerimeterPoints_def unitSquare_def samplePolys_eq groupSamples_simps
      length_edgePoints length_concat)

lemma nth_edgePoints:
  assumes "k < length (edgePoints a b t len)"
  shows "edgePoints a b t len ! k =
           (fst a + (fst b - fst a) * (real (k + 1) / real_of_int \<lceil>t / (real len - 1)\<rceil>),
            snd a + (snd b - snd a) * (real (k + 1) / real_of_int \<lceil>t / (real len - 1)\<rceil>))"
  using assms by (simp add: edgePoints_def samplePoint_def)

text \<open>
  Claim C7, as the code has it. The sampler emits, ring group by ring group, every vertex
  of the first ring and then, for each pair of consecutive vertices of that ring, the
  points that divide the edge into \<open>c\<close> equal parts, where \<open>c\<close> is
  \<open>targetPerRing / (ringVertexCount - 1)\<close> rounded up: these are \<open>c - 1\<close> interior
  points per edge, the \<open>k\<close>-th of them at the fraction \<open>(k + 1) / c\<close> of the edge. Rings
  after the first contribute nothing, and a shape without rings has no samples.
\<close>

theorem samplePerimeterPoints_samples:
  "samplePerimeterPoints p t =
     concat (map (groupSamples t)
       (case geometry p of Polygon cs \<Rightarrow> [cs] | MultiPolygon css \<Rightarrow> css))
   \<and> groupSamples t [] = []
   \<and> groupSamples t (ring # holes) = ringSamples t ring
   \<and> ringSamples t ring =
       ring @ concat (map (\<lambda>i. edgePoints (ring ! i) (ring ! (i + 1)) t (length ring))
                        [0..<length ring - 1])
   \<and> length (edgePoints a b t len) = nat \<lceil>t / (real len - 1)\<rceil> - 1
   \<and> (\<forall>k < length (edgePoints a b t len).
         edgePoints a b t len ! k =
           (fst a + (fst b - fst a) * (real (k + 1) / real_of_int \<lceil>t / (real len - 1)\<rceil>),
            snd a + (snd b - snd a) * (real (k + 1) / real_of_int \<lceil>t / (real len - 1)\<rceil>)))
   \<and> samplePerimeterPoints \<lparr>geometry = Polygon []\<rparr> t = []
   \<and> samplePerimeterPoints \<lparr>geometry = MultiPolygon []\<rparr> t = []
   \<and> samplePerimeterPoints \<lparr>geometry = MultiPolygon [[]]\<rparr> t = []"
proof -
  have "samplePerimeterPoints p t =
     concat (map (groupSamples t)
       (case geometry p of Polygon cs \<Rightarrow> [cs] | MultiPolygon css \<Rightarrow> css))"
    by (simp add: samplePerimeterPoints_def samplePolys_eq)
  moreover have "groupSamples t [] = []" and "groupSamples t (ring # holes) = ringSamples t ring"
    by (simp_all add: groupSamples_def)
  moreover have "ringSamples t ring =
       ring @ concat (map (\<lambda>i. edgePoints (ring ! i) (ring ! (i + 1)) t (length ring))
                        [0..<length ring - 1])"
    by (simp add: ringSamples_def)
  moreover have "samplePerimeterPoints \<lparr>geometry = Polygon []\<rparr> t = []"
    and "samplePerimeterPoints \<lparr>geometry = MultiPolygon []\<rparr> t = []"
    and "samplePerimeterPoints \<lparr>geometry = MultiPolygon [[]]\<rparr> t = []"
    by (simp_all add: samplePerimeterPoints_def)
  ultimately show ?thesis
    using length_edgePoints [of a b t len] nth_edgePoints [of _ a b t len]
    by (intro conjI allI impI) (assumption | rule nth_edgePoints)+
qed

theorem samplePerimeterPoints_samples_witness:
  "length (edgePoints (0, 0) (6, 0) 24 5) = 5
   \<and> edgePoints (0, 0) (6, 0) 24 5 ! 0 = (1, 0)
   \<and> edgePoints (0, 0) (6, 0) 24 5 ! 4 = (5, 0)"
proof -
  have c: "\<lceil>(24::real) / (real 5 - 1)\<rceil> = 6"
    by simp
  note t = samplePerimeterPoints_samples [of unitSquare 24 "[]" "[]" "(0, 0)" "(6, 0)" 5]
  note l = t [THEN conjunct2, THEN conjunct2, THEN conjunct2, THEN conjunct2, THEN conjunct1]
  note n = t [THEN conjunct2, THEN conjunct2, THEN conjunct2, THEN conjunct2, THEN conjunct2,
    THEN conjunct1, rule_format]
  from l have len: "length (edgePoints (0, 0) (6, 0) 24 5) = 5"
    by (simp add: c)
  from n [of 0] len have n0: "edgePoints (0, 0) (6, 0) 24 5 ! 0 = (1, 0)"
    by (simp add: c)
  from n [of 4] len have n4: "edgePoints (0, 0) (6, 0) 24 5 ! 4 = (5, 0)"
    by (simp add: c)
  from len n0 n4 show ?thesis
    by (intro conjI)
qed

text \<open>
  Claim C7 as stated fails: on the closed unit square (five ring vertices, four edges)
  with target 24 it would give \<open>5 + 4 * 6 = 29\<close> samples, and the code gives 25.
\<close>

theorem samplePerimeterPoints_count_counterexample:
  "length (samplePerimeterPoints unitSquare 24) \<noteq> 5 + 4 * nat \<lceil>24 / (real 5 - 1)\<rceil>"
proof -
  have "nat \<lceil>(24::real) / (real 5 - 1)\<rceil> = 6"
    by simp
  then show ?thesis
    by (simp add: length_samples_unitSquare)
qed

section \<open>The trivial inputs\<close>

lemma edgesOuter_Nil: "edgesOuter lib [] 0 [] = Inr []"
  by (subst edgesOuter.simps) simp

text \<open>
  Claim C3. For a single shape the merge returns that shape, with empty \<open>pairs\<close>,
  \<open>mstEdges\<close> and \<open>corridorPolygons\<close>, whatever the library functions are: none of them
  is consulted.
\<close>

theorem merge_single:
  "mergePolygonsWithShortestCorridors lib [f] opts =
     Some (Inr \<lparr>result_output = f,
                result_debug = \<lparr>pairs = [], mstEdges = [], corridorPolygons = []\<rparr>\<rparr>)"
  by (simp add: mergePolygonsWithShortestCorridors_def)

text \<open>
  Claim C10. For the empty input the merge throws \<^verbatim>\<open>Error("Union failed")\<close>: the edge list
  is empty, Kruskal's scan accepts nothing, there is no piece, and the accumulator
  stays unset.
\<close>

theorem merge_empty:
  "mergePolygonsWithShortestCorridors lib [] opts = Some (Inl UnionFailed)
   \<and> edgesOuter lib [] 0 [] = Inr []
   \<and> kruskalLoop 0 (sortEdges []) (newUnionFind 0) [] = Some (newUnionFind 0, [])
   \<and> unionPieces lib ([] @ map (\<lambda>e. turf_buffer lib (mst_seg e) w) []) None = None"
  by (simp add: mergePolygonsWithShortestCorridors_def edgesOuter_Nil sortEdges_def)

section \<open>The corridor width\<close>

lemma merge_corridors:
  assumes "mergePolygonsWithShortestCorridors lib features opts = Some (Inr r)"
  shows "corridorPolygons (result_debug r) =
           map (\<lambda>e. turf_buffer lib (mst_seg e) (corridorWidthKm lib features opts))
             (mstEdges (result_debug r))"
  using assms
  by (auto simp: mergePolygonsWithShortestCorridors_def Let_def
      split: list.splits sum.splits option.splits prod.splits)

text \<open>
  Claim C6. With the bounding box \<open>(minX, minY, maxX, maxY)\<close> of all shapes, the
  corridor width is the diagonal times 0.02 times the factor; the diagonal is replaced
  by 1 when it is 0 or when \<^verbatim>\<open>turf.distance\<close> throws; a missing option or field gives
  the factor 1; twice the factor gives twice the width; and every corridor polygon of
  a returned result is the buffer of its MST segment with that width.
\<close>

theorem corridorWidthKm_formula:
  assumes "turf_bbox lib polys = (minX, minY, maxX, maxY)"
  shows "corridorWidthKm lib polys (Some \<lparr>corridorFactor = Some factor\<rparr>) =
           (case turf_distance lib (minX, minY) (maxX, maxY) of
              None \<Rightarrow> 1
            | Some km \<Rightarrow> if km = 0 then 1 else km) * 0.02 * factor
         \<and> corridorWidthKm lib polys None =
             corridorWidthKm lib polys (Some \<lparr>corridorFactor = Some 1\<rparr>)
         \<and> corridorWidthKm lib polys (Some \<lparr>corridorFactor = None\<rparr>) =
             corridorWidthKm lib polys (Some \<lparr>corridorFactor = Some 1\<rparr>)
         \<and> corridorWidthKm lib polys (Some \<lparr>corridorFactor = Some (2 * factor)\<rparr>) =
             2 * corridorWidthKm lib polys (Some \<lparr>corridorFactor = Some factor\<rparr>)
         \<and> (mergePolygonsWithShortestCorridors lib polys opts = Some (Inr r) \<longrightarrow>
              corridorPolygons (result_debug r) =
                map (\<lambda>e. turf_buffer lib (mst_seg e) (corridorWidthKm lib polys opts))
                  (mstEdges (result_debug r)))"
  using assms merge_corridors [of lib polys opts r]
  by (simp add: corridorWidthKm_def bboxDiagonalKm_def split: option.splits)

section \<open>Disjoint sets: representatives\<close>

lemma rep_bounds: "rep l x r \<Longrightarrow> x < length l \<and> r < length l \<and> l ! r = r"
  by (induction rule: rep.induct) auto

lemma rep_det: "rep l x r \<Longrightarrow> rep l x r' \<Longrightarrow> r = r'"
proof (induction arbitrary: r' rule: rep.induct)
  case (rep_root x)
  from rep_root.prems rep_root.hyps show ?case
    by (cases rule: rep.cases) auto
next
  case (rep_step x r)
  from rep_step.prems rep_step.hyps(1,2) have "rep l (l ! x) r'"
    by (cases rule: rep.cases) auto
  then show ?case
    by (rule rep_step.IH)
qed

lemma rep_of_root: "rep l r r' \<Longrightarrow> l ! r = r \<Longrightarrow> r' = r"
  by (cases rule: rep.cases) auto

lemma rep_compress:
  assumes xr: "rep l x r" and ys: "rep l y s"
  shows "rep (l[x := r]) y s"
  using ys
proof (induction rule: rep.induct)
  case (rep_root y)
  show ?case
  proof (cases "y = x")
    case True
    with xr rep_root have "r = x"
      by (auto dest: rep_of_root)
    with True rep_root show ?thesis
      by (auto intro: rep.rep_root)
  next
    case False
    with rep_root show ?thesis
      by (auto intro: rep.rep_root)
  qed
next
  case (rep_step y s)
  show ?case
  proof (cases "y = x")
    case True
    from rep_step.hyps have "rep l y s"
      by (auto intro: rep.rep_step)
    with True xr have sr: "s = r"
      by (auto dest: rep_det)
    from xr have rb: "r < length l" "l ! r = r"
      by (auto dest: rep_bounds)
    with rep_step.hyps True have "r \<noteq> x"
      by auto
    with rb have "rep (l[x := r]) r r"
      by (auto intro: rep.rep_root)
    with True sr rep_step.hyps \<open>r \<noteq> x\<close> show ?thesis
      by (auto intro: rep.rep_step)
  next
    case False
    with rep_step show ?thesis
      by (auto intro: rep.rep_step)
  qed
qed

lemma rep_link:
  assumes ra: "ra < length l" "l ! ra = ra" and rb: "rb < length l" "l ! rb = rb"
    and ne: "ra \<noteq> rb" and ys: "rep l y s"
  shows "rep (l[ra := rb]) y (if s = ra then rb else s)"
  using ys
proof (induction rule: rep.induct)
  case (rep_root y)
  show ?case
  proof (cases "y = ra")
    case True
    from rb ne have "rep (l[ra := rb]) rb rb"
      by (auto intro: rep.rep_root)
    with True ra ne show ?thesis
      by (auto intro: rep.rep_step)
  next
    case False
    with rep_root show ?thesis
      by (auto intro: rep.rep_root)
  qed
next
  case (rep_step y s)
  from rep_step.hyps ra have "y \<noteq> ra"
    by auto
  with rep_step show ?case
    by (auto intro: rep.rep_step)
qed

lemma uf_find_rep:
  assumes "rep l x r" and "parent uf = l"
  shows "\<exists>uf'. uf_find uf x = Some (uf', r) \<and> rank uf' = rank uf
           \<and> length (parent uf') = length l
           \<and> (\<forall>y s. rep l y s \<longrightarrow> rep (parent uf') y s)
           \<and> (\<forall>y < length l. parent uf' ! y = y \<longleftrightarrow> l ! y = y)
           \<and> parent uf' ! x = r"
  using assms
proof (induction rule: rep.induct)
  case (rep_root x)
  then have "uf_find uf x = Some (uf, x)"
    by (subst uf_find.simps) simp
  with rep_root show ?case
    by auto
next
  case (rep_step x r)
  from rep_step.IH [OF rep_step.prems] obtain uf1 where
    f1: "uf_find uf (l ! x) = Some (uf1, r)" and rk: "rank uf1 = rank uf"
    and len: "length (parent uf1) = length l"
    and pres: "\<And>y s. rep l y s \<Longrightarrow> rep (parent uf1) y s"
    and roots: "\<And>y. y < length l \<Longrightarrow> parent uf1 ! y = y \<longleftrightarrow> l ! y = y"
    by blast
  let ?uf' = "uf1\<lparr>parent := (parent uf1)[x := r]\<rparr>"
  from rep_step.hyps have xr: "rep l x r"
    by (auto intro: rep.rep_step)
  from xr have rroot: "l ! r = r" "r < length l"
    by (auto dest: rep_bounds)
  with rep_step.hyps have rx: "r \<noteq> x"
    by auto
  from rep_step.hyps rep_step.prems f1 len
  have "uf_find uf x = Some (?uf', r)"
    by (subst uf_find.simps) simp
  moreover have "rank ?uf' = rank uf"
    by (simp add: rk)
  moreover have "length (parent ?uf') = length l"
    by (simp add: len)
  moreover have "\<forall>y s. rep l y s \<longrightarrow> rep (parent ?uf') y s"
    using rep_compress [OF pres [OF xr]] pres by simp
  moreover have "\<forall>y < length l. parent ?uf' ! y = y \<longleftrightarrow> l ! y = y"
    using roots rx rep_step.hyps len by (auto simp: nth_list_update)
  moreover have "parent ?uf' ! x = r"
    using rep_step.hyps len by simp
  ultimately show ?case
    by blast
qed

lemma uf_find_pointers:
  assumes "rep l x r" and "parent uf = l" and "uf_find uf x = Some (uf', r')"
  shows "\<forall>y < length l. parent uf' ! y = l ! y \<or> parent uf' ! y = r \<and> rep l y r"
  using assms
proof (induction arbitrary: uf' r' rule: rep.induct)
  case (rep_root x)
  then have "uf_find uf x = Some (uf, x)"
    by (subst uf_find.simps) simp
  with rep_root show ?case
    by simp
next
  case (rep_step x r)
  from uf_find_rep [OF rep_step.hyps(3) rep_step.prems(1)] obtain uf1 where
    f1: "uf_find uf (l ! x) = Some (uf1, r)" and len: "length (parent uf1) = length l"
    by blast
  from rep_step.hyps rep_step.prems(1) f1
  have "uf_find uf x = Some (uf1\<lparr>parent := (parent uf1)[x := r]\<rparr>, r)"
    by (subst uf_find.simps) (simp add: len)
  with rep_step.prems(2) have uf': "uf' = uf1\<lparr>parent := (parent uf1)[x := r]\<rparr>"
    by auto
  from rep_step.hyps have xr: "rep l x r"
    by (auto intro: rep.rep_step)
  note IH = rep_step.IH [OF rep_step.prems(1) f1, rule_format]
  show ?case
  proof (intro allI impI)
    fix y
    assume y: "y < length l"
    show "parent uf' ! y = l ! y \<or> parent uf' ! y = r \<and> rep l y r"
    proof (cases "y = x")
      case True
      with xr y len show ?thesis
        by (simp add: uf')
    next
      case False
      with IH [OF y] show ?thesis
        by (simp add: uf')
    qed
  qed
qed

lemma on_path_root: "l ! x = x \<Longrightarrow> on_path l x y \<longleftrightarrow> x < length l \<and> y = x"
  by (auto elim: on_path.cases intro: on_path_start)

lemma on_path_unfold:
  "x < length l \<Longrightarrow> l ! x \<noteq> x \<Longrightarrow> on_path l x y \<longleftrightarrow> y = x \<or> on_path l (l ! x) y"
  by (auto elim: on_path.cases intro: on_path.intros)

lemma uf_find_exact:
  assumes "rep l x r" and "parent uf = l" and "uf_find uf x = Some (uf', r')"
  shows "\<forall>y < length l. parent uf' ! y = (if on_path l x y then r else l ! y)"
  using assms
proof (induction arbitrary: uf' r' rule: rep.induct)
  case (rep_root x)
  then have "uf_find uf x = Some (uf, x)"
    by (subst uf_find.simps) simp
  with rep_root show ?case
    by (auto simp: on_path_root)
next
  case (rep_step x r)
  from uf_find_rep [OF rep_step.hyps(3) rep_step.prems(1)] obtain uf1 where
    f1: "uf_find uf (l ! x) = Some (uf1, r)" and len: "length (parent uf1) = length l"
    by blast
  from rep_step.hyps rep_step.prems(1) f1
  have "uf_find uf x = Some (uf1\<lparr>parent := (parent uf1)[x := r]\<rparr>, r)"
    by (subst uf_find.simps) (simp add: len)
  with rep_step.prems(2) have uf': "uf' = uf1\<lparr>parent := (parent uf1)[x := r]\<rparr>"
    by auto
  note IH = rep_step.IH [OF rep_step.prems(1) f1, rule_format]
  note un = on_path_unfold [OF rep_step.hyps(1,2)]
  show ?case
  proof (intro allI impI)
    fix y
    assume y: "y < length l"
    show "parent uf' ! y = (if on_path l x y then r else l ! y)"
    proof (cases "y = x")
      case True
      with y len show ?thesis
        by (simp add: uf' un)
    next
      case False
      with IH [OF y] show ?thesis
        by (simp add: uf' un)
    qed
  qed
qed

section \<open>Disjoint sets: \<^verbatim>\<open>find\<close> and \<^verbatim>\<open>union\<close>\<close>

lemma find_ok:
  assumes inv: "uf_inv uf" and x: "x < length (parent uf)"
  shows "\<exists>uf' r. uf_find uf x = Some (uf', r) \<and> rep (parent uf) x r
    \<and> uf_inv uf' \<and> rank uf' = rank uf
    \<and> length (parent uf') = length (parent uf)
    \<and> (\<forall>y s. rep (parent uf') y s \<longleftrightarrow> rep (parent uf) y s)
    \<and> roots uf' = roots uf \<and> parent uf' ! x = r"
proof -
  from inv x obtain r where xr: "rep (parent uf) x r"
    by (auto simp: uf_inv_def)
  from uf_find_rep [OF xr refl] obtain uf' where
    f: "uf_find uf x = Some (uf', r)" and rk: "rank uf' = rank uf"
    and len: "length (parent uf') = length (parent uf)"
    and pres: "\<And>y s. rep (parent uf) y s \<Longrightarrow> rep (parent uf') y s"
    and rt: "\<And>y. y < length (parent uf) \<Longrightarrow> parent uf' ! y = y \<longleftrightarrow> parent uf ! y = y"
    and px: "parent uf' ! x = r"
    by blast
  have conv: "rep (parent uf) y s" if "rep (parent uf') y s" for y s
  proof -
    from that len have "y < length (parent uf)"
      by (auto dest: rep_bounds)
    with inv obtain s0 where s0: "rep (parent uf) y s0"
      by (auto simp: uf_inv_def)
    from pres [OF s0] that have "s = s0"
      by (auto dest: rep_det)
    with s0 show ?thesis
      by simp
  qed
  have eq: "\<And>y s. rep (parent uf') y s \<longleftrightarrow> rep (parent uf) y s"
    using pres conv by blast
  have "uf_inv uf'"
    using inv by (simp add: uf_inv_def rk len eq)
  moreover have "roots uf' = roots uf"
    using rt by (auto simp: roots_def len)
  ultimately show ?thesis
    using f xr rk len eq px by blast
qed

lemma uf_union_unfold:
  assumes inv: "uf_inv uf" and a: "a < length (parent uf)" and b: "b < length (parent uf)"
    and ra: "rep (parent uf) a ra" and rb: "rep (parent uf) b rb"
  shows "\<exists>uf2. uf_inv uf2 \<and> length (parent uf2) = length (parent uf) \<and> rank uf2 = rank uf
           \<and> (\<forall>y s. rep (parent uf2) y s \<longleftrightarrow> rep (parent uf) y s)
           \<and> roots uf2 = roots uf
           \<and> uf_union uf a b =
               (if ra = rb then Some uf2
                else if rank uf ! ra < rank uf ! rb
                  then Some (uf2\<lparr>parent := (parent uf2)[ra := rb]\<rparr>)
                else if rank uf ! ra > rank uf ! rb
                  then Some (uf2\<lparr>parent := (parent uf2)[rb := ra]\<rparr>)
                else Some (uf2\<lparr>parent := (parent uf2)[rb := ra],
                                rank := (rank uf)[ra := rank uf ! ra + 1]\<rparr>))"
proof -
  from find_ok [OF inv a] obtain uf1 ra' where
    f1: "uf_find uf a = Some (uf1, ra')" and ra': "rep (parent uf) a ra'"
    and inv1: "uf_inv uf1" and rk1: "rank uf1 = rank uf"
    and len1: "length (parent uf1) = length (parent uf)"
    and eq1: "\<forall>y s. rep (parent uf1) y s \<longleftrightarrow> rep (parent uf) y s"
    and rt1: "roots uf1 = roots uf"
    by blast
  from ra ra' have raa: "ra' = ra"
    by (rule rep_det [symmetric])
  from b len1 have b1: "b < length (parent uf1)"
    by simp
  from find_ok [OF inv1 b1] obtain uf2 rb' where
    f2: "uf_find uf1 b = Some (uf2, rb')" and rb': "rep (parent uf1) b rb'"
    and inv2: "uf_inv uf2" and rk2: "rank uf2 = rank uf1"
    and len2: "length (parent uf2) = length (parent uf1)"
    and eq2: "\<forall>y s. rep (parent uf2) y s \<longleftrightarrow> rep (parent uf1) y s"
    and rt2: "roots uf2 = roots uf1"
    by blast
  from rb' eq1 have "rep (parent uf) b rb'"
    by simp
  with rb have rbb: "rb' = rb"
    by (rule rep_det [symmetric])
  have eq: "\<forall>y s. rep (parent uf2) y s \<longleftrightarrow> rep (parent uf) y s"
    by (simp add: eq1 eq2)
  have len: "length (parent uf2) = length (parent uf)"
    by (simp add: len1 len2)
  have rk: "rank uf2 = rank uf"
    by (simp add: rk1 rk2)
  have rt: "roots uf2 = roots uf"
    by (simp add: rt1 rt2)
  from ra rb have "ra < length (parent uf)" "rb < length (parent uf)"
    by (auto dest: rep_bounds)
  with inv have "ra < length (rank uf)" "rb < length (rank uf)"
    by (simp_all add: uf_inv_def)
  then have "uf_union uf a b =
               (if ra = rb then Some uf2
                else if rank uf ! ra < rank uf ! rb
                  then Some (uf2\<lparr>parent := (parent uf2)[ra := rb]\<rparr>)
                else if rank uf ! ra > rank uf ! rb
                  then Some (uf2\<lparr>parent := (parent uf2)[rb := ra]\<rparr>)
                else Some (uf2\<lparr>parent := (parent uf2)[rb := ra],
                                rank := (rank uf)[ra := rank uf ! ra + 1]\<rparr>))"
    by (simp add: uf_union_def f1 f2 raa rbb rk)
  with inv2 len rk eq rt show ?thesis
    by (intro exI [of _ uf2]) simp
qed

lemma uf_union_same:
  assumes inv: "uf_inv uf" and a: "a < length (parent uf)" and b: "b < length (parent uf)"
    and ra: "rep (parent uf) a r" and rb: "rep (parent uf) b r"
  shows "\<exists>uf'. uf_union uf a b = Some uf' \<and> uf_inv uf'
           \<and> length (parent uf') = length (parent uf)
           \<and> (\<forall>y s. rep (parent uf') y s \<longleftrightarrow> rep (parent uf) y s)
           \<and> roots uf' = roots uf"
  using uf_union_unfold [OF inv a b ra rb] by auto

lemma uf_union_link:
  assumes inv: "uf_inv uf" and a: "a < length (parent uf)" and b: "b < length (parent uf)"
    and ra: "rep (parent uf) a ra" and rb: "rep (parent uf) b rb" and ne: "ra \<noteq> rb"
  defines "keep \<equiv> if rank uf ! ra < rank uf ! rb then rb else ra"
    and "lose \<equiv> if rank uf ! ra < rank uf ! rb then ra else rb"
  shows "\<exists>uf'. uf_union uf a b = Some uf' \<and> uf_inv uf'
           \<and> length (parent uf') = length (parent uf)
           \<and> (\<forall>y s. rep (parent uf) y s \<longrightarrow>
                        rep (parent uf') y (if s = lose then keep else s))
           \<and> roots uf' = roots uf - {lose}
           \<and> parent uf' ! lose = keep
           \<and> rank uf' = (if rank uf ! ra = rank uf ! rb
                          then (rank uf)[ra := rank uf ! ra + 1] else rank uf)"
proof -
  from uf_union_unfold [OF inv a b ra rb] obtain uf2 where
    inv2: "uf_inv uf2" and len: "length (parent uf2) = length (parent uf)"
    and rk: "rank uf2 = rank uf"
    and eq: "\<forall>y s. rep (parent uf2) y s \<longleftrightarrow> rep (parent uf) y s"
    and rt: "roots uf2 = roots uf"
    and un: "uf_union uf a b =
               (if ra = rb then Some uf2
                else if rank uf ! ra < rank uf ! rb
                  then Some (uf2\<lparr>parent := (parent uf2)[ra := rb]\<rparr>)
                else if rank uf ! ra > rank uf ! rb
                  then Some (uf2\<lparr>parent := (parent uf2)[rb := ra]\<rparr>)
                else Some (uf2\<lparr>parent := (parent uf2)[rb := ra],
                                rank := (rank uf)[ra := rank uf ! ra + 1]\<rparr>))"
    by (elim exE conjE)
  let ?l = "parent uf2"
  from ra rb eq have rab: "ra < length ?l" "?l ! ra = ra" "rb < length ?l" "?l ! rb = rb"
    using rep_bounds [of ?l a ra] rep_bounds [of ?l b rb] by auto
  from inv2 have lrk: "length (rank uf2) = length ?l"
    by (simp add: uf_inv_def)
  have kl: "keep = ra \<and> lose = rb \<or> keep = rb \<and> lose = ra"
    by (simp add: keep_def lose_def)
  define uf' where "uf' =
    (if rank uf ! ra < rank uf ! rb then uf2\<lparr>parent := ?l[ra := rb]\<rparr>
     else if rank uf ! ra > rank uf ! rb then uf2\<lparr>parent := ?l[rb := ra]\<rparr>
     else uf2\<lparr>parent := ?l[rb := ra], rank := (rank uf)[ra := rank uf ! ra + 1]\<rparr>)"
  have u: "uf_union uf a b = Some uf'"
    using un ne by (simp add: uf'_def)
  have p': "parent uf' = ?l[lose := keep]"
    by (simp add: uf'_def keep_def lose_def)
  have lr': "length (rank uf') = length ?l"
    using lrk by (simp add: uf'_def rk)
  have rk': "rank uf' = (if rank uf ! ra = rank uf ! rb
                          then (rank uf)[ra := rank uf ! ra + 1] else rank uf)"
    by (simp add: uf'_def rk)
  from kl rab ne have k: "keep < length ?l" "?l ! keep = keep"
    and l: "lose < length ?l" "?l ! lose = lose" and nkl: "lose \<noteq> keep"
    by auto
  have link: "rep (parent uf') y (if s = lose then keep else s)" if "rep (parent uf) y s" for y s
    using rep_link [OF l k nkl] that eq p' by simp
  have "uf_inv uf'"
    unfolding uf_inv_def
  proof (intro conjI allI impI)
    show "length (rank uf') = length (parent uf')"
      by (simp add: p' lr')
  next
    fix x
    assume "x < length (parent uf')"
    with p' len have "x < length (parent uf)"
      by simp
    with inv obtain s where "rep (parent uf) x s"
      by (auto simp: uf_inv_def)
    from link [OF this] show "\<exists>r. rep (parent uf') x r"
      by blast
  qed
  moreover have "roots uf' = roots uf - {lose}"
  proof -
    have "roots uf' = roots uf2 - {lose}"
      using l k nkl by (auto simp: roots_def p' nth_list_update)
    then show ?thesis
      by (simp add: rt)
  qed
  moreover have "length (parent uf') = length (parent uf)"
    by (simp add: p' len)
  moreover have "\<forall>y s. rep (parent uf) y s \<longrightarrow> rep (parent uf') y (if s = lose then keep else s)"
    using link by blast
  moreover have "parent uf' ! lose = keep"
    using l by (simp add: p')
  ultimately show ?thesis
    using u rk' by (intro exI [of _ uf']) (simp only: simp_thms)
qed

section \<open>Connectivity\<close>

lemma conn_refl: "(x, x) \<in> conn E"
  by (simp add: conn_def)

lemma conn_sym: "(x, y) \<in> conn E \<Longrightarrow> (y, x) \<in> conn E"
proof -
  have "sym (E \<union> E\<inverse>)"
    by (auto simp: sym_def)
  then have "sym ((E \<union> E\<inverse>)\<^sup>*)"
    by (rule sym_rtrancl)
  then show "(x, y) \<in> conn E \<Longrightarrow> (y, x) \<in> conn E"
    by (auto simp: conn_def sym_def)
qed

lemma conn_trans: "(x, y) \<in> conn E \<Longrightarrow> (y, z) \<in> conn E \<Longrightarrow> (x, z) \<in> conn E"
  by (simp add: conn_def)

lemma conn_edge: "(a, b) \<in> E \<Longrightarrow> (a, b) \<in> conn E"
  by (auto simp: conn_def)

lemma conn_mono: "E \<subseteq> E' \<Longrightarrow> conn E \<subseteq> conn E'"
  unfolding conn_def by (rule rtrancl_mono) auto

lemma conn_closed:
  assumes sub: "E \<subseteq> conn F"
  shows "conn E \<subseteq> conn F"
proof
  fix p
  assume "p \<in> conn E"
  then obtain x y where p: "p = (x, y)" and xy: "(x, y) \<in> (E \<union> E\<inverse>)\<^sup>*"
    by (cases p) (auto simp: conn_def)
  from xy have "(x, y) \<in> conn F"
  proof (induction rule: rtrancl_induct)
    case base
    show ?case by (rule conn_refl)
  next
    case (step y z)
    from step.hyps(2) sub have "(y, z) \<in> conn F"
      by (auto dest: conn_sym)
    with step.IH show ?case
      by (rule conn_trans)
  qed
  with p show "p \<in> conn F"
    by simp
qed

lemma conn_insert:
  "(x, y) \<in> conn (insert (a, b) E) \<longleftrightarrow>
     (x, y) \<in> conn E \<or> (x, a) \<in> conn E \<and> (b, y) \<in> conn E
       \<or> (x, b) \<in> conn E \<and> (a, y) \<in> conn E"
  (is "?L \<longleftrightarrow> ?R x y")
proof
  assume ?L
  then have "(x, y) \<in> (insert (a, b) E \<union> (insert (a, b) E)\<inverse>)\<^sup>*"
    by (simp add: conn_def)
  then show "?R x y"
  proof (induction rule: rtrancl_induct)
    case base
    show ?case by (simp add: conn_refl)
  next
    case (step y z)
    from step.hyps(2) consider "(y, z) \<in> conn E" | "y = a \<and> z = b" | "y = b \<and> z = a"
      by (auto dest: conn_edge conn_sym)
    then show ?case
    proof cases
      case 1
      with step.IH show ?thesis
        by (blast intro: conn_trans)
    next
      case 2
      with step.IH show ?thesis
        by (blast intro: conn_refl conn_trans conn_sym)
    next
      case 3
      with step.IH show ?thesis
        by (blast intro: conn_refl conn_trans conn_sym)
    qed
  qed
next
  assume r: "?R x y"
  have m: "conn E \<subseteq> conn (insert (a, b) E)"
    by (rule conn_mono) auto
  have ab: "(a, b) \<in> conn (insert (a, b) E)"
    by (rule conn_edge) simp
  then have ba: "(b, a) \<in> conn (insert (a, b) E)"
    by (rule conn_sym)
  from r m ab ba show ?L
    by (blast intro: conn_trans)
qed

section \<open>Kruskal's scan and its invariant\<close>

lemma mst_ends_toMst [simp]: "mst_ends (toMst e) = ends e"
  by (simp add: mst_ends_def toMst_def ends_def)

lemma kruskal_inv_cong:
  assumes "kruskal_inv n uf mst" and "uf_inv uf'"
    and "length (parent uf') = length (parent uf)"
    and "\<forall>y s. rep (parent uf') y s \<longleftrightarrow> rep (parent uf) y s"
    and "roots uf' = roots uf"
  shows "kruskal_inv n uf' mst"
  using assms by (simp add: kruskal_inv_def)

lemma kruskal_inv_same:
  assumes k: "kruskal_inv n uf mst" and a: "a < n" and b: "b < n"
    and ra: "rep (parent uf) a ra" and rb: "rep (parent uf) b rb"
  shows "ra = rb \<longleftrightarrow> (a, b) \<in> conn (mst_ends ` set mst)"
proof -
  from k a b have "(\<exists>r. rep (parent uf) a r \<and> rep (parent uf) b r)
      \<longleftrightarrow> (a, b) \<in> conn (mst_ends ` set mst)"
    by (simp add: kruskal_inv_def)
  moreover have "(\<exists>r. rep (parent uf) a r \<and> rep (parent uf) b r) \<longleftrightarrow> ra = rb"
    using ra rb by (auto dest: rep_det)
  ultimately show ?thesis
    by simp
qed

lemma roots_finite: "finite (roots uf)"
  by (simp add: roots_def)

lemma kruskal_inv_link:
  assumes k: "kruskal_inv n uf mst" and a: "a < n" and b: "b < n"
    and ra: "rep (parent uf) a ra" and rb: "rep (parent uf) b rb" and ne: "ra \<noteq> rb"
    and inv': "uf_inv uf'" and len': "length (parent uf') = length (parent uf)"
    and kl: "keep = ra \<and> lose = rb \<or> keep = rb \<and> lose = ra"
    and link: "\<forall>y s. rep (parent uf) y s \<longrightarrow> rep (parent uf') y (if s = lose then keep else s)"
    and rt: "roots uf' = roots uf - {lose}"
    and m: "mst_ends m = (a, b)"
  shows "kruskal_inv n uf' (mst @ [m])"
proof -
  let ?E = "mst_ends ` set mst"
  from k have inv: "uf_inv uf" and len: "length (parent uf) = n"
    and cn: "\<And>i j. i < n \<Longrightarrow> j < n \<Longrightarrow>
        (\<exists>r. rep (parent uf) i r \<and> rep (parent uf) j r) \<longleftrightarrow> (i, j) \<in> conn ?E"
    and cd: "card (roots uf) + length mst = n"
    by (simp_all add: kruskal_inv_def)
  have E': "mst_ends ` set (mst @ [m]) = insert (a, b) ?E"
    by (simp add: m)
  have conn': "(\<exists>r. rep (parent uf') i r \<and> rep (parent uf') j r) \<longleftrightarrow> (i, j) \<in> conn (insert (a, b) ?E)"
    if i: "i < n" and j: "j < n" for i j
  proof -
    from inv i len obtain si where si: "rep (parent uf) i si"
      by (auto simp: uf_inv_def)
    from inv j len obtain sj where sj: "rep (parent uf) j sj"
      by (auto simp: uf_inv_def)
    let ?f = "\<lambda>s. if s = lose then keep else s"
    from link si sj have si': "rep (parent uf') i (?f si)" and sj': "rep (parent uf') j (?f sj)"
      by blast+
    have "(\<exists>r. rep (parent uf') i r \<and> rep (parent uf') j r) \<longleftrightarrow> ?f si = ?f sj"
      using si' sj' by (auto dest: rep_det)
    also have "\<dots> \<longleftrightarrow> si = sj \<or> si = ra \<and> sj = rb \<or> si = rb \<and> sj = ra"
      using kl ne by auto
    also have "si = sj \<longleftrightarrow> (i, j) \<in> conn ?E"
      by (rule kruskal_inv_same [OF k i j si sj])
    also have "si = ra \<longleftrightarrow> (i, a) \<in> conn ?E"
      by (rule kruskal_inv_same [OF k i a si ra])
    also have "sj = rb \<longleftrightarrow> (b, j) \<in> conn ?E"
      using kruskal_inv_same [OF k b j rb sj] by auto
    also have "si = rb \<longleftrightarrow> (i, b) \<in> conn ?E"
      by (rule kruskal_inv_same [OF k i b si rb])
    also have "sj = ra \<longleftrightarrow> (a, j) \<in> conn ?E"
      using kruskal_inv_same [OF k a j ra sj] by auto
    finally show ?thesis
      by (simp add: conn_insert)
  qed
  from ra rb have "ra \<in> roots uf" "rb \<in> roots uf"
    by (auto simp: roots_def dest: rep_bounds)
  with kl have "lose \<in> roots uf"
    by auto
  then have "card (roots uf - {lose}) + 1 = card (roots uf)"
    using roots_finite [of uf] card_Suc_Diff1 [of "roots uf" lose] by simp
  with cd rt have "card (roots uf') + length (mst @ [m]) = n"
    by simp
  with inv' len' len conn' show ?thesis
    unfolding kruskal_inv_def E' by simp
qed

lemma kruskalLoop_skip:
  assumes "uf_find uf (edge_a e) = Some (uf1, ra)"
    and "uf_find uf1 (edge_b e) = Some (uf2, rb)" and "ra = rb"
  shows "kruskalLoop n (e # es) uf mst = kruskalLoop n es uf2 mst"
  using assms by simp

lemma kruskalLoop_accept:
  assumes "uf_find uf (edge_a e) = Some (uf1, ra)"
    and "uf_find uf1 (edge_b e) = Some (uf2, rb)" and "ra \<noteq> rb"
    and "uf_union uf2 (edge_a e) (edge_b e) = Some uf3"
  shows "kruskalLoop n (e # es) uf mst =
           (if int (length mst) + 1 = int n - 1 then Some (uf3, mst @ [toMst e])
            else kruskalLoop n es uf3 (mst @ [toMst e]))"
  using assms by (simp add: Let_def toMst_def)

lemma kruskalSel_skip:
  "ends e \<in> conn (ends ` set acc) \<Longrightarrow> kruskalSel n (e # es) acc = kruskalSel n es acc"
  by simp

lemma kruskalSel_accept:
  "ends e \<notin> conn (ends ` set acc) \<Longrightarrow>
   kruskalSel n (e # es) acc =
     (if int (length acc) + 1 = int n - 1 then acc @ [e] else kruskalSel n es (acc @ [e]))"
  by simp

lemma kruskalLoop_sel:
  assumes "kruskal_inv n uf (map toMst acc)"
    and "\<forall>e \<in> set es. edge_a e < n \<and> edge_b e < n"
  shows "\<exists>uf'. kruskalLoop n es uf (map toMst acc) =
                  Some (uf', map toMst (kruskalSel n es acc))
               \<and> kruskal_inv n uf' (map toMst (kruskalSel n es acc))"
  using assms
proof (induction es arbitrary: uf acc)
  case Nil
  then show ?case
    by simp
next
  case (Cons e es)
  let ?a = "edge_a e" and ?b = "edge_b e"
  let ?mst = "map toMst acc"
  from Cons.prems have k: "kruskal_inv n uf ?mst" and a: "?a < n" and b: "?b < n"
    and rest: "\<forall>e \<in> set es. edge_a e < n \<and> edge_b e < n"
    by simp_all
  from k have inv: "uf_inv uf" and len: "length (parent uf) = n"
    by (simp_all add: kruskal_inv_def)
  from a len have a0: "?a < length (parent uf)"
    by simp
  from find_ok [OF inv a0] obtain uf1 ra where
    f1: "uf_find uf ?a = Some (uf1, ra)" and ra: "rep (parent uf) ?a ra"
    and inv1: "uf_inv uf1" and len1: "length (parent uf1) = length (parent uf)"
    and eq1: "\<forall>y s. rep (parent uf1) y s \<longleftrightarrow> rep (parent uf) y s"
    and rt1: "roots uf1 = roots uf"
    by blast
  have k1: "kruskal_inv n uf1 ?mst"
    by (rule kruskal_inv_cong [OF k inv1 len1 eq1 rt1])
  from b len len1 have b1: "?b < length (parent uf1)"
    by simp
  from find_ok [OF inv1 b1] obtain uf2 rb where
    f2: "uf_find uf1 ?b = Some (uf2, rb)" and rb: "rep (parent uf1) ?b rb"
    and inv2: "uf_inv uf2" and len2: "length (parent uf2) = length (parent uf1)"
    and eq2: "\<forall>y s. rep (parent uf2) y s \<longleftrightarrow> rep (parent uf1) y s"
    and rt2: "roots uf2 = roots uf1"
    by blast
  have k2: "kruskal_inv n uf2 ?mst"
    by (rule kruskal_inv_cong [OF k1 inv2 len2 eq2 rt2])
  from ra rb eq1 eq2 have ra2: "rep (parent uf2) ?a ra" and rb2: "rep (parent uf2) ?b rb"
    by simp_all
  have E: "mst_ends ` set ?mst = ends ` set acc"
    by (simp add: image_image)
  from kruskal_inv_same [OF k2 a b ra2 rb2]
  have same: "ra = rb \<longleftrightarrow> ends e \<in> conn (ends ` set acc)"
    by (simp only: E ends_def)
  show ?case
  proof (cases "ra = rb")
    case True
    have l: "kruskalLoop n (e # es) uf ?mst = kruskalLoop n es uf2 ?mst"
      by (rule kruskalLoop_skip [OF f1 f2 True])
    from True same have s: "kruskalSel n (e # es) acc = kruskalSel n es acc"
      by (simp only: kruskalSel_skip)
    from Cons.IH [OF k2 rest] show ?thesis
      by (simp only: l s)
  next
    case False
    from len len1 len2 a b have a2: "?a < length (parent uf2)" and b2: "?b < length (parent uf2)"
      by simp_all
    define keep where "keep = (if rank uf2 ! ra < rank uf2 ! rb then rb else ra)"
    define lose where "lose = (if rank uf2 ! ra < rank uf2 ! rb then ra else rb)"
    have kl: "keep = ra \<and> lose = rb \<or> keep = rb \<and> lose = ra"
      by (simp add: keep_def lose_def)
    from uf_union_link [OF inv2 a2 b2 ra2 rb2 False] obtain uf3 where
      u: "uf_union uf2 ?a ?b = Some uf3" and inv3: "uf_inv uf3"
      and len3: "length (parent uf3) = length (parent uf2)"
      and link: "\<forall>y s. rep (parent uf2) y s \<longrightarrow>
                   rep (parent uf3) y (if s = lose then keep else s)"
      and rt3: "roots uf3 = roots uf2 - {lose}"
      unfolding keep_def lose_def by (elim exE conjE)
    have m: "mst_ends (toMst e) = (?a, ?b)"
      by (simp add: ends_def)
    have "kruskal_inv n uf3 (?mst @ [toMst e])"
      by (rule kruskal_inv_link [OF k2 a b ra2 rb2 False inv3 len3 kl link rt3 m])
    then have k3: "kruskal_inv n uf3 (map toMst (acc @ [e]))"
      by simp
    from False same have nc: "ends e \<notin> conn (ends ` set acc)"
      by simp
    have l: "kruskalLoop n (e # es) uf ?mst =
           (if int (length acc) + 1 = int n - 1 then Some (uf3, map toMst (acc @ [e]))
            else kruskalLoop n es uf3 (map toMst (acc @ [e])))"
      using kruskalLoop_accept [OF f1 f2 False u, of n es ?mst] by simp
    note s = kruskalSel_accept [OF nc, of n es]
    show ?thesis
    proof (cases "int (length acc) + 1 = int n - 1")
      case True
      from k3 show ?thesis
        by (simp only: l s True if_True) simp
    next
      case stop: False
      from Cons.IH [OF k3 rest] show ?thesis
        by (simp only: l s stop if_False)
    qed
  qed
qed

section \<open>The pairwise connector\<close>

lemma scanPairs_append:
  "scanPairs lib (xs @ ys) bst =
     (case scanPairs lib xs bst of Inl e \<Rightarrow> Inl e | Inr bst' \<Rightarrow> scanPairs lib ys bst')"
  by (induction xs arbitrary: bst) (auto split: option.splits)

lemma scanB_pairs: "scanB lib pa samplesB bst = scanPairs lib (map (Pair pa) samplesB) bst"
  by (induction samplesB arbitrary: bst) (auto split: option.splits)

lemma scanA_pairs: "scanA lib samplesA samplesB bst = scanPairs lib (List.product samplesA samplesB) bst"
  by (induction samplesA arbitrary: bst) (auto simp: scanPairs_append scanB_pairs split: sum.splits)

lemma first_min_single: "turf_distance lib (fst p) (snd p) = Some d \<Longrightarrow>
   first_min lib [p] \<lparr>best_pa = fst p, best_pb = snd p, best_d = d\<rparr>"
  by (simp add: first_min_def pair_km_def)

lemma first_min_keep:
  assumes fm: "first_min lib pre cur" and d: "turf_distance lib (fst p) (snd p) = Some d"
    and ge: "\<not> d < best_d cur"
  shows "first_min lib (pre @ [p]) cur"
proof -
  from fm obtain k where k: "k < length pre" "pre ! k = (best_pa cur, best_pb cur)"
    "best_d cur = pair_km lib (pre ! k)"
    "\<forall>j < length pre. pair_km lib (pre ! k) \<le> pair_km lib (pre ! j)"
    "\<forall>j < k. pair_km lib (pre ! k) < pair_km lib (pre ! j)"
    unfolding first_min_def by (elim exE conjE)
  from d have pd: "pair_km lib p = d"
    by (simp add: pair_km_def)
  have "\<forall>j < length (pre @ [p]). pair_km lib ((pre @ [p]) ! k) \<le> pair_km lib ((pre @ [p]) ! j)"
  proof (intro allI impI)
    fix j
    assume "j < length (pre @ [p])"
    then consider "j < length pre" | "j = length pre"
      by (auto simp: less_Suc_eq)
    then show "pair_km lib ((pre @ [p]) ! k) \<le> pair_km lib ((pre @ [p]) ! j)"
    proof cases
      case 1
      with k show ?thesis
        by (simp add: nth_append)
    next
      case 2
      with k ge pd show ?thesis
        by (simp add: nth_append)
    qed
  qed
  moreover have "\<forall>j < k. pair_km lib ((pre @ [p]) ! k) < pair_km lib ((pre @ [p]) ! j)"
    using k by (simp add: nth_append)
  ultimately show ?thesis
    unfolding first_min_def using k(1,2,3)
    by (intro exI [of _ k]) (simp add: nth_append)
qed

lemma first_min_replace:
  assumes fm: "first_min lib pre cur" and d: "turf_distance lib (fst p) (snd p) = Some d"
    and lt: "d < best_d cur"
  shows "first_min lib (pre @ [p]) \<lparr>best_pa = fst p, best_pb = snd p, best_d = d\<rparr>"
proof -
  from fm obtain k where k: "k < length pre"
    "best_d cur = pair_km lib (pre ! k)"
    "\<forall>j < length pre. pair_km lib (pre ! k) \<le> pair_km lib (pre ! j)"
    unfolding first_min_def by (elim exE conjE)
  from d have pd: "pair_km lib p = d"
    by (simp add: pair_km_def)
  have lower: "d < pair_km lib (pre ! j)" if "j < length pre" for j
    using k that lt by force
  show ?thesis
    unfolding first_min_def
    by (intro exI [of _ "length pre"]) (auto simp: nth_append pd lower less_Suc_eq intro: less_imp_le)
qed

lemma scanPairs_first_min:
  assumes "\<forall>p \<in> set ps. turf_distance lib (fst p) (snd p) \<noteq> None"
    and "case bst of None \<Rightarrow> pre = [] | Some cur \<Rightarrow> first_min lib pre cur"
  shows "\<exists>bst'. scanPairs lib ps bst = Inr bst'
           \<and> (case bst' of None \<Rightarrow> pre @ ps = [] | Some cur \<Rightarrow> first_min lib (pre @ ps) cur)"
  using assms
proof (induction ps arbitrary: pre bst)
  case Nil
  then show ?case
    by (simp split: option.splits)
next
  case (Cons p ps)
  from Cons.prems(1) obtain d where d: "turf_distance lib (fst p) (snd p) = Some d"
    by auto
  let ?new = "\<lparr>best_pa = fst p, best_pb = snd p, best_d = d\<rparr>"
  let ?bst = "case bst of None \<Rightarrow> Some ?new
              | Some cur \<Rightarrow> if d < best_d cur then Some ?new else Some cur"
  have inv: "case ?bst of None \<Rightarrow> pre @ [p] = [] | Some cur \<Rightarrow> first_min lib (pre @ [p]) cur"
  proof (cases bst)
    case None
    with Cons.prems(2) first_min_single [OF d] show ?thesis
      by simp
  next
    case (Some cur)
    with Cons.prems(2) first_min_keep [OF _ d, of pre cur] first_min_replace [OF _ d, of pre cur]
    show ?thesis
      by simp
  qed
  from Cons.prems(1) have rest: "\<forall>p \<in> set ps. turf_distance lib (fst p) (snd p) \<noteq> None"
    by simp
  from Cons.IH [OF rest inv, unfolded append_assoc append_Cons append_Nil] d show ?case
    by simp
qed

lemma samples_dot: "samplePerimeterPoints (dot x y) t = [(x, y)]"
  by (simp add: samplePerimeterPoints_def dot_def samplePolys_eq groupSamples_simps)


lemma shortestSegmentBetween_cases:
  assumes "\<forall>pa \<in> set (samplePerimeterPoints a 24). \<forall>pb \<in> set (samplePerimeterPoints b 24).
             turf_distance lib pa pb \<noteq> None"
  shows "(List.product (samplePerimeterPoints a 24) (samplePerimeterPoints b 24) = [] \<and>
          shortestSegmentBetween lib a b =
            (case turf_centroid lib a of
               None \<Rightarrow> Inl TurfError
             | Some ca \<Rightarrow>
                 (case turf_centroid lib b of
                    None \<Rightarrow> Inl TurfError
                  | Some cb \<Rightarrow> Inr (lineString [ca, cb]))))
       \<or> (\<exists>cur. first_min lib (List.product (samplePerimeterPoints a 24)
                                  (samplePerimeterPoints b 24)) cur \<and>
            shortestSegmentBetween lib a b = Inr (lineString [best_pa cur, best_pb cur]))"
proof -
  let ?ps = "List.product (samplePerimeterPoints a 24) (samplePerimeterPoints b 24)"
  from assms have "\<forall>p \<in> set ?ps. turf_distance lib (fst p) (snd p) \<noteq> None"
    by auto
  from scanPairs_first_min [OF this, where bst = None and pre = "[]", unfolded append_Nil]
  obtain bst' where
    s: "scanPairs lib ?ps None = Inr bst'"
    and c: "case bst' of None \<Rightarrow> ?ps = [] | Some cur \<Rightarrow> first_min lib ?ps cur"
    by auto
  show ?thesis
  proof (cases bst')
    case None
    with s c show ?thesis
      by (simp add: shortestSegmentBetween_def scanA_pairs)
  next
    case (Some cur)
    with s have "shortestSegmentBetween lib a b = Inr (lineString [best_pa cur, best_pb cur])"
      by (simp add: shortestSegmentBetween_def scanA_pairs)
    with c Some show ?thesis
      by auto
  qed
qed

lemma product_eq_Nil: "List.product xs ys = [] \<longleftrightarrow> xs = [] \<or> ys = []"
  by (induction xs) auto





section \<open>The connection graph\<close>

lemma shortestSegmentBetween_returns:
  assumes lib: "turf_returns lib polys" and a: "a \<in> set polys" and b: "b \<in> set polys"
  shows "shortestSegmentBetween lib a b = Inr (projr (shortestSegmentBetween lib a b))"
proof -
  from lib have "\<forall>p q. turf_distance lib p q \<noteq> None"
    unfolding turf_returns_def by (rule conjunct1)
  then have "\<forall>pa \<in> set (samplePerimeterPoints a 24). \<forall>pb \<in> set (samplePerimeterPoints b 24).
             turf_distance lib pa pb \<noteq> None"
    by blast
  from shortestSegmentBetween_cases [OF this] show ?thesis
  proof
    assume e: "List.product (samplePerimeterPoints a 24) (samplePerimeterPoints b 24) = [] \<and>
          shortestSegmentBetween lib a b =
            (case turf_centroid lib a of
               None \<Rightarrow> Inl TurfError
             | Some ca \<Rightarrow>
                 (case turf_centroid lib b of
                    None \<Rightarrow> Inl TurfError
                  | Some cb \<Rightarrow> Inr (lineString [ca, cb])))"
    then have "samplePerimeterPoints a 24 = [] \<or> samplePerimeterPoints b 24 = []"
      by (simp add: product_eq_Nil)
    with a b have "\<exists>f \<in> set polys. samplePerimeterPoints f 24 = []"
      by auto
    with lib have "\<forall>g \<in> set polys. turf_centroid lib g \<noteq> None"
      unfolding turf_returns_def by blast
    with a b have "turf_centroid lib a \<noteq> None" "turf_centroid lib b \<noteq> None"
      by blast+
    then obtain ca cb where "turf_centroid lib a = Some ca" "turf_centroid lib b = Some cb"
      by blast
    with e show ?thesis
      by simp
  next
    assume "\<exists>cur. first_min lib (List.product (samplePerimeterPoints a 24)
                                  (samplePerimeterPoints b 24)) cur \<and>
            shortestSegmentBetween lib a b = Inr (lineString [best_pa cur, best_pb cur])"
    then show ?thesis
      by auto
  qed
qed

lemma edgesInner_eq:
  assumes "turf_returns lib polys" and "i < length polys"
  shows "edgesInner lib polys i j acc =
           Inr (acc @ map (mkEdge lib polys) (map (Pair i) [j..<length polys]))"
  using assms
proof (induction lib polys i j acc rule: edgesInner.induct)
  case (1 lib polys i j edges)
  show ?case
  proof (cases "j < length polys")
    case True
    then have u: "[j..<length polys] = j # [j + 1..<length polys]"
      by (simp add: upt_conv_Cons)
    from True "1.prems"(2) have m: "polys ! i \<in> set polys" "polys ! j \<in> set polys"
      by simp_all
    note sg = shortestSegmentBetween_returns [OF "1.prems"(1) m]
    have "edgesInner lib polys i j edges =
        edgesInner lib polys i (j + 1) (edges @ [mkEdge lib polys (i, j)])"
      by (subst edgesInner.simps, subst sg) (simp only: True if_True sum.case mkEdge_def Let_def fst_conv snd_conv)
    also note "1.IH" [OF True sg "1.prems", folded mkEdge_def [of lib polys "(i, j)", unfolded Let_def fst_conv snd_conv]]
    finally show ?thesis
      by (simp add: u)
  next
    case False
    then show ?thesis
      by (subst edgesInner.simps) simp
  qed
qed

lemma edgesOuter_eq:
  assumes "turf_returns lib polys"
  shows "edgesOuter lib polys i acc =
           Inr (acc @ map (mkEdge lib polys)
                  (concat (map (\<lambda>i. map (Pair i) [i + 1..<length polys]) [i..<length polys])))"
  using assms
proof (induction lib polys i acc rule: edgesOuter.induct)
  case (1 lib polys i edges)
  show ?case
  proof (cases "i < length polys")
    case True
    then have u: "[i..<length polys] = i # [i + 1..<length polys]"
      by (simp add: upt_conv_Cons)
    note inner = edgesInner_eq [OF "1.prems" True, of "i + 1" edges]
    have "edgesOuter lib polys i edges =
        edgesOuter lib polys (i + 1)
          (edges @ map (mkEdge lib polys) (map (Pair i) [i + 1..<length polys]))"
      by (subst edgesOuter.simps) (simp only: True if_True inner sum.case)
    also note "1.IH" [OF True inner "1.prems"]
    finally show ?thesis
      by (simp add: u)
  next
    case False
    then show ?thesis
      by (subst edgesOuter.simps) simp
  qed
qed

lemma edgesOuter_indexPairs:
  assumes "turf_returns lib polys"
  shows "edgesOuter lib polys 0 [] = Inr (map (mkEdge lib polys) (indexPairs (length polys)))"
  by (simp add: edgesOuter_eq [OF assms] indexPairs_def)

lemma set_indexPairs: "set (indexPairs n) = {(i, j). i < j \<and> j < n}"
proof (intro set_eqI iffI)
  fix p
  assume "p \<in> set (indexPairs n)"
  then show "p \<in> {(i, j). i < j \<and> j < n}"
    by (auto simp: indexPairs_def)
next
  fix p :: "nat \<times> nat"
  assume "p \<in> {(i, j). i < j \<and> j < n}"
  then obtain i j where p: "p = (i, j)" and ij: "i < j" "j < n"
    by auto
  from ij have "i \<in> set [0..<n]" and "(i, j) \<in> set (map (Pair i) [i + 1..<n])"
    by auto
  then have "(i, j) \<in> set (concat (map (\<lambda>i. map (Pair i) [i + 1..<n]) [0..<n]))"
    unfolding set_concat by (intro UN_I [of "map (Pair i) [i + 1..<n]"]) simp_all
  with p show "p \<in> set (indexPairs n)"
    by (simp only: indexPairs_def)
qed

lemma distinct_rows:
  "distinct xs \<Longrightarrow> (\<forall>x \<in> set xs. distinct (f x)) \<Longrightarrow>
   distinct (concat (map (\<lambda>i. map (Pair i) (f i)) xs))"
  by (induction xs) (auto simp: distinct_map inj_on_def)

lemma distinct_indexPairs: "distinct (indexPairs n)"
  unfolding indexPairs_def by (rule distinct_rows) simp_all

lemma ends_mkEdge [simp]: "ends (mkEdge lib polys ij) = ij"
  by (simp add: ends_def mkEdge_def Let_def)

lemma length_indexPairs: "length (indexPairs n) = n choose 2"
proof -
  have "length (indexPairs n) = (\<Sum>i\<leftarrow>[0..<n]. n - Suc i)"
    by (simp add: indexPairs_def length_concat comp_def)
  also have "\<dots> = (\<Sum>i<n. n - Suc i)"
    by (simp add: interv_sum_list_conv_sum_set_nat atLeast0LessThan)
  also have "\<dots> = (\<Sum>i<n. i)"
    by (rule sum.nat_diff_reindex)
  also have "\<dots> = n choose 2"
    by (induction n) (simp_all add: numeral_2_eq_2)
  finally show ?thesis .
qed

section \<open>The merge of three dots\<close>

lemma seg_dots:
  "shortestSegmentBetween planarTurf (dot x y) (dot u v) = Inr (lineString [(x, y), (u, v)])"
  by (simp add: shortestSegmentBetween_def samples_dot planarTurf_def)

lemma edges_threeDots:
  "edgesOuter planarTurf threeDots 0 [] =
     Inr [\<lparr>edge_a = 0, edge_b = 1, edge_distance = 3, edge_seg = lineString [(0, 0), (3, 0)]\<rparr>,
          \<lparr>edge_a = 0, edge_b = 2, edge_distance = 4, edge_seg = lineString [(0, 0), (0, 4)]\<rparr>,
          \<lparr>edge_a = 1, edge_b = 2, edge_distance = 7, edge_seg = lineString [(3, 0), (0, 4)]\<rparr>]"
  by (simp add: edgesOuter.simps edgesInner.simps threeDots_def seg_dots)
     (simp add: planarTurf_def lineString_def taxicab_def)

lemma kruskal_three:
  "kruskalLoop 3 [\<lparr>edge_a = 0, edge_b = 1, edge_distance = 3, edge_seg = s1\<rparr>,
          \<lparr>edge_a = 0, edge_b = 2, edge_distance = 4, edge_seg = s2\<rparr>,
          \<lparr>edge_a = 1, edge_b = 2, edge_distance = 7, edge_seg = s3\<rparr>] (newUnionFind 3) []
   = Some (\<lparr>parent = [0, 0, 0], rank = [1, 0, 0]\<rparr>,
           [\<lparr>mst_a = 0, mst_b = 1, mst_seg = s1\<rparr>, \<lparr>mst_a = 0, mst_b = 2, mst_seg = s2\<rparr>])"
  by (simp add: newUnionFind_def uf_find.simps uf_union_def upt_rec eval_nat_numeral)

lemma merge_unfold:
  assumes "length polys \<noteq> 1"
  shows "mergePolygonsWithShortestCorridors lib polys opts =
     (case edgesOuter lib polys 0 [] of
        Inl e \<Rightarrow> Some (Inl e)
      | Inr unsorted \<Rightarrow>
          (case kruskalLoop (length polys) (sortEdges unsorted) (newUnionFind (length polys)) [] of
             None \<Rightarrow> None
           | Some (uf, mst) \<Rightarrow>
               (case unionPieces lib
                       (polys @ map (\<lambda>e. turf_buffer lib (mst_seg e)
                                          (corridorWidthKm lib polys opts)) mst) None of
                  None \<Rightarrow> Some (Inl UnionFailed)
                | Some accumulated \<Rightarrow>
                    Some (Inr \<lparr>result_output = accumulated,
                               result_debug =
                                 \<lparr>pairs = sortEdges unsorted, mstEdges = mst,
                                  corridorPolygons =
                                    map (\<lambda>e. turf_buffer lib (mst_seg e)
                                               (corridorWidthKm lib polys opts)) mst\<rparr>\<rparr>))))"
proof -
  from assms have "(case polys of [single] \<Rightarrow> x single | _ \<Rightarrow> y) = y" for x :: "feature \<Rightarrow> (error + mergeResult) option" and y
    by (cases polys; cases "tl polys") auto
  then show ?thesis
    by (simp add: mergePolygonsWithShortestCorridors_def Let_def
        split: sum.splits option.splits prod.splits)
qed

lemma merge_threeDots:
  "mergePolygonsWithShortestCorridors planarTurf threeDots opts = Some (Inr threeDotsResult)"
proof -
  let ?e1 = "\<lparr>edge_a = 0, edge_b = 1, edge_distance = 3, edge_seg = lineString [(0, 0), (3, 0)]\<rparr>"
  let ?e2 = "\<lparr>edge_a = 0, edge_b = 2, edge_distance = 4, edge_seg = lineString [(0, 0), (0, 4)]\<rparr>"
  let ?e3 = "\<lparr>edge_a = 1, edge_b = 2, edge_distance = 7, edge_seg = lineString [(3, 0), (0, 4)]\<rparr>"
  let ?mst = "[\<lparr>mst_a = 0, mst_b = 1, mst_seg = lineString [(0, 0), (3, 0)]\<rparr>,
               \<lparr>mst_a = 0, mst_b = 2, mst_seg = lineString [(0, 0), (0, 4)]\<rparr>]"
  have len: "length threeDots = 3"
    by (simp add: threeDots_def)
  then have ne: "length threeDots \<noteq> 1"
    by simp
  have srt: "sortEdges [?e1, ?e2, ?e3] = [?e1, ?e2, ?e3]"
    by (simp add: sortEdges_def)
  have un: "unionPieces planarTurf
          (threeDots @ map (\<lambda>e. turf_buffer planarTurf (mst_seg e) w) ?mst) None =
        Some (result_output threeDotsResult)" for w
    by (simp add: threeDots_def threeDotsResult_def planarTurf_def lineString_def dot_def
        ringGroups_def)
  have "mergePolygonsWithShortestCorridors planarTurf threeDots opts =
      Some (Inr \<lparr>result_output = result_output threeDotsResult,
                 result_debug =
                   \<lparr>pairs = [?e1, ?e2, ?e3], mstEdges = ?mst,
                    corridorPolygons =
                      map (\<lambda>e. turf_buffer planarTurf (mst_seg e)
                                 (corridorWidthKm planarTurf threeDots opts)) ?mst\<rparr>\<rparr>)"
    by (simp only: merge_unfold [OF ne] edges_threeDots sum.case srt len kruskal_three
        option.case prod.case un)
  then show ?thesis
    by (simp add: threeDotsResult_def planarTurf_def lineString_def)
qed


subsection \<open>The merge of two dots\<close>





section \<open>The stages of the merge\<close>

lemma rep_upt: "x < n \<Longrightarrow> rep [0..<n] x r \<longleftrightarrow> r = x"
  by (auto intro: rep.rep_root dest: rep_of_root)

lemma conn_empty: "(i, j) \<in> conn {} \<longleftrightarrow> i = j"
  by (simp add: conn_def)

lemma kruskal_inv_init: "kruskal_inv n (newUnionFind n) []"
proof -
  have "roots (newUnionFind n) = {..<n}"
    by (auto simp: roots_def newUnionFind_def)
  then have "card (roots (newUnionFind n)) = n"
    by simp
  moreover have "uf_inv (newUnionFind n)"
    by (auto simp: uf_inv_def newUnionFind_def rep_upt)
  moreover have "(\<exists>r. rep [0..<n] i r \<and> rep [0..<n] j r) \<longleftrightarrow> i = j" if "i < n" "j < n" for i j
    using that by (auto simp: rep_upt)
  ultimately show ?thesis
    by (simp add: kruskal_inv_def conn_empty) (simp add: newUnionFind_def)
qed

lemma set_connectionEdges:
  "set (connectionEdges lib polys) = mkEdge lib polys ` {(i, j). i < j \<and> j < length polys}"
  by (simp add: connectionEdges_def sortEdges_def set_indexPairs)

lemma connectionEdges_range:
  "\<forall>e \<in> set (connectionEdges lib polys). edge_a e < length polys \<and> edge_b e < length polys"
  by (auto simp: set_connectionEdges mkEdge_def Let_def)

lemma unionPieces_Some:
  assumes "\<forall>x y. turf_union lib x y \<noteq> None"
  shows "unionPieces lib pieces (Some acc) = Some (unionFold lib acc pieces)"
  using assms
proof (induction pieces arbitrary: acc)
  case Nil
  then show ?case
    by (simp add: unionFold_def)
next
  case (Cons piece pieces)
  from Cons.prems obtain u where u: "turf_union lib acc piece = Some u"
    by auto
  with Cons.IH [OF Cons.prems, of u] show ?case
    by (simp add: unionFold_def)
qed

lemma unionPieces_Cons:
  assumes "\<forall>x y. turf_union lib x y \<noteq> None"
  shows "unionPieces lib (piece # pieces) None = Some (unionFold lib piece pieces)"
  by (simp add: unionPieces_Some [OF assms])


lemma kruskal_stage:
  "\<exists>uf. kruskalLoop (length polys) (connectionEdges lib polys) (newUnionFind (length polys)) [] =
          Some (uf, map toMst (kruskalSel (length polys) (connectionEdges lib polys) []))
        \<and> kruskal_inv (length polys) uf
            (map toMst (kruskalSel (length polys) (connectionEdges lib polys) []))"
  using kruskalLoop_sel [of "length polys" "newUnionFind (length polys)" "[]"
      "connectionEdges lib polys"]
    kruskal_inv_init [of "length polys"] connectionEdges_range [of lib polys]
  by auto

lemma merge_stages:
  assumes lib: "turf_returns lib polys" and n: "2 \<le> length polys"
  shows "mergePolygonsWithShortestCorridors lib polys opts =
     (case unionPieces lib
             (polys @ map (\<lambda>e. turf_buffer lib (mst_seg e) (corridorWidthKm lib polys opts))
                        (map toMst (kruskalSel (length polys) (connectionEdges lib polys) [])))
             None of
        None \<Rightarrow> Some (Inl UnionFailed)
      | Some accumulated \<Rightarrow>
          Some (Inr \<lparr>result_output = accumulated,
                     result_debug =
                       \<lparr>pairs = connectionEdges lib polys,
                        mstEdges = map toMst (kruskalSel (length polys)
                                     (connectionEdges lib polys) []),
                        corridorPolygons =
                          map (\<lambda>e. turf_buffer lib (mst_seg e)
                                     (corridorWidthKm lib polys opts))
                            (map toMst (kruskalSel (length polys)
                               (connectionEdges lib polys) []))\<rparr>\<rparr>))"
proof -
  let ?n = "length polys"
  let ?es = "connectionEdges lib polys"
  let ?mst = "map toMst (kruskalSel ?n ?es [])"
  have e: "edgesOuter lib polys 0 [] = Inr (map (mkEdge lib polys) (indexPairs ?n))"
    by (rule edgesOuter_indexPairs [OF lib])
  have s: "sortEdges (map (mkEdge lib polys) (indexPairs ?n)) = ?es"
    by (simp add: connectionEdges_def)
  from kruskal_stage [of polys lib]
  obtain uf where k: "kruskalLoop ?n ?es (newUnionFind ?n) [] = Some (uf, ?mst)"
    by (elim exE conjE)
  from n have ne: "?n \<noteq> 1"
    by simp
  show ?thesis
    unfolding merge_unfold [OF ne] e sum.case s k option.case prod.case
    by (rule refl)
qed

lemma merge_debug:
  assumes "turf_returns lib polys" and "2 \<le> length polys"
    and "mergePolygonsWithShortestCorridors lib polys opts = Some (Inr r)"
  shows "pairs (result_debug r) = connectionEdges lib polys
       \<and> mstEdges (result_debug r) =
           map toMst (kruskalSel (length polys) (connectionEdges lib polys) [])"
  using assms(3) unfolding merge_stages [OF assms(1,2)]
  by (auto split: option.splits)

lemma merge_returns:
  assumes lib: "turf_returns lib polys" and n: "2 \<le> length polys"
    and u: "\<forall>x y. turf_union lib x y \<noteq> None"
  shows "\<exists>r. mergePolygonsWithShortestCorridors lib polys opts = Some (Inr r)"
proof -
  from n obtain p ps where polys: "polys = p # ps"
    by (cases polys) auto
  have up: "unionPieces lib (polys @ cs) None = Some (unionFold lib (hd polys) (tl polys @ cs))"
    for cs
    using unionPieces_Cons [OF u, of p "ps @ cs"] by (simp add: polys)
  show ?thesis
    unfolding merge_stages [OF lib n] up by simp
qed
section \<open>The graph, the union and the corridor width of the merge\<close>

lemma inj_on_mkEdge: "inj_on (mkEdge lib polys) A"
  by (rule inj_on_inverseI [of _ ends]) simp

lemma map_ends_connectionEdges:
  "distinct (map ends (connectionEdges lib polys))
   \<and> set (map ends (connectionEdges lib polys)) = {(i, j). i < j \<and> j < length polys}"
proof -
  have "distinct (connectionEdges lib polys)"
    by (simp add: connectionEdges_def sortEdges_def distinct_map distinct_indexPairs inj_on_mkEdge)
  moreover have "inj_on ends (set (connectionEdges lib polys))"
    unfolding set_connectionEdges by (rule inj_onI) auto
  moreover have "ends ` set (connectionEdges lib polys) = {(i, j). i < j \<and> j < length polys}"
    unfolding set_connectionEdges by (simp add: image_image)
  ultimately show ?thesis
    by (simp add: distinct_map)
qed

text \<open>
  Claim C5. Where the connector does not throw and there are at least two shapes, the two
  loops return, and their sorted output has one edge for each index pair \<open>i < j < n\<close> and
  no other, \<open>n\<close> choose 2 edges in all, each with the connector's segment for its two
  shapes and the length of that segment as its distance, in ascending order of distance;
  it is the \<open>pairs\<close> of every result of the merge; and the merge returns where
  \<^verbatim>\<open>turf.union\<close> returns a shape.
\<close>

theorem connection_graph:
  assumes "turf_returns lib polys" and "2 \<le> length polys"
  shows "\<exists>unsorted. edgesOuter lib polys 0 [] = Inr unsorted
           \<and> length (sortEdges unsorted) = length polys choose 2
           \<and> distinct (map ends (sortEdges unsorted))
           \<and> set (map ends (sortEdges unsorted)) = {(i, j). i < j \<and> j < length polys}
           \<and> (\<forall>e \<in> set (sortEdges unsorted).
                 shortestSegmentBetween lib (polys ! edge_a e) (polys ! edge_b e) =
                   Inr (edge_seg e)
                 \<and> edge_distance e = turf_length lib (edge_seg e))
           \<and> sorted (map edge_distance (sortEdges unsorted))
           \<and> (\<forall>r. mergePolygonsWithShortestCorridors lib polys opts = Some (Inr r) \<longrightarrow>
                 pairs (result_debug r) = sortEdges unsorted)
           \<and> ((\<forall>x y. turf_union lib x y \<noteq> None) \<longrightarrow>
                 (\<exists>r. mergePolygonsWithShortestCorridors lib polys opts = Some (Inr r)))"
proof -
  let ?es = "connectionEdges lib polys"
  have e: "edgesOuter lib polys 0 [] = Inr (map (mkEdge lib polys) (indexPairs (length polys)))"
    by (rule edgesOuter_indexPairs [OF assms(1)])
  have s: "sortEdges (map (mkEdge lib polys) (indexPairs (length polys))) = ?es"
    by (simp add: connectionEdges_def)
  have l: "length ?es = length polys choose 2"
    by (simp add: connectionEdges_def sortEdges_def length_indexPairs)
  have c: "\<forall>e \<in> set ?es.
             shortestSegmentBetween lib (polys ! edge_a e) (polys ! edge_b e) = Inr (edge_seg e)
             \<and> edge_distance e = turf_length lib (edge_seg e)"
  proof
    fix e
    assume "e \<in> set ?es"
    then obtain i j where ij: "i < j" "j < length polys" and e: "e = mkEdge lib polys (i, j)"
      by (auto simp: set_connectionEdges)
    from ij have "polys ! i \<in> set polys" "polys ! j \<in> set polys"
      by simp_all
    from shortestSegmentBetween_returns [OF assms(1) this] show
      "shortestSegmentBetween lib (polys ! edge_a e) (polys ! edge_b e) = Inr (edge_seg e)
       \<and> edge_distance e = turf_length lib (edge_seg e)"
      by (simp add: e mkEdge_def Let_def)
  qed
  have o: "sorted (map edge_distance ?es)"
    by (simp add: connectionEdges_def sortEdges_def)
  have p: "\<forall>r. mergePolygonsWithShortestCorridors lib polys opts = Some (Inr r) \<longrightarrow>
             pairs (result_debug r) = ?es"
    using merge_debug [OF assms] by blast
  have r: "(\<forall>x y. turf_union lib x y \<noteq> None) \<longrightarrow>
             (\<exists>r. mergePolygonsWithShortestCorridors lib polys opts = Some (Inr r))"
    using merge_returns [OF assms] by blast
  from map_ends_connectionEdges [of lib polys]
  have dd: "distinct (map ends ?es)"
    and ss: "set (map ends ?es) = {(i, j). i < j \<and> j < length polys}"
    by simp_all
  show ?thesis
    apply (rule exI [of _ "map (mkEdge lib polys) (indexPairs (length polys))"])
    unfolding s
    apply (intro conjI)
           apply (rule e)
          apply (rule l)
         apply (rule dd)
        apply (rule ss)
       apply (rule c)
      apply (rule o)
     apply (rule p)
    apply (rule r)
    done
qed

lemma turf_returns_planarTurf: "turf_returns planarTurf threeDots"
  by (simp add: turf_returns_def planarTurf_def threeDots_def samples_dot)

theorem connection_graph_witness:
  "length (pairs (result_debug threeDotsResult)) = 3
   \<and> set (map ends (pairs (result_debug threeDotsResult))) = {(i, j). i < j \<and> j < 3}
   \<and> sorted (map edge_distance (pairs (result_debug threeDotsResult)))"
proof -
  have "2 \<le> length threeDots"
    by (simp add: threeDots_def)
  from connection_graph [OF turf_returns_planarTurf this, of None]
  obtain unsorted where
    l: "length (sortEdges unsorted) = length threeDots choose 2"
    and s: "set (map ends (sortEdges unsorted)) = {(i, j). i < j \<and> j < length threeDots}"
    and o: "sorted (map edge_distance (sortEdges unsorted))"
    and p: "\<forall>r. mergePolygonsWithShortestCorridors planarTurf threeDots None = Some (Inr r) \<longrightarrow>
                 pairs (result_debug r) = sortEdges unsorted"
    by (elim exE conjE)
  from p merge_threeDots [of None] have "pairs (result_debug threeDotsResult) = sortEdges unsorted"
    by simp
  with l s o show ?thesis
    by (simp add: threeDots_def numeral_3_eq_3 numeral_2_eq_2)
qed









theorem corridorWidthKm_formula_witness:
  "corridorWidthKm planarTurf threeDots (Some \<lparr>corridorFactor = Some 2\<rparr>) = 7 * 0.02 * 2
   \<and> corridorWidthKm planarTurf threeDots None = 7 * 0.02 * 1
   \<and> corridorPolygons (result_debug threeDotsResult) =
       map (\<lambda>e. turf_buffer planarTurf (mst_seg e) (corridorWidthKm planarTurf threeDots None))
         (mstEdges (result_debug threeDotsResult))
   \<and> corridorWidthKm planarTurf [dot 1 1, dot 1 1] (Some \<lparr>corridorFactor = Some 2\<rparr>) =
       1 * 0.02 * 2"
proof -
  have b: "turf_bbox planarTurf threeDots = (0, 0, 3, 4)"
    by (simp add: planarTurf_def planarBbox_def threeDots_def vertices_def ringGroups_def dot_def)
  have d: "turf_distance planarTurf (0, 0) (3, 4) = Some 7"
    by (simp add: planarTurf_def taxicab_def)
  have b1: "turf_bbox planarTurf [dot 1 1, dot 1 1] = (1, 1, 1, 1)"
    by (simp add: planarTurf_def planarBbox_def vertices_def ringGroups_def dot_def)
  have d1: "turf_distance planarTurf (1, 1) (1, 1) = Some 0"
    by (simp add: planarTurf_def taxicab_def)
  from corridorWidthKm_formula [OF b, of 2 None threeDotsResult]
    corridorWidthKm_formula [OF b, of 1 None threeDotsResult]
    corridorWidthKm_formula [OF b1, of 2 None threeDotsResult]
    merge_threeDots [of None]
  show ?thesis
    by (simp add: d d1)
qed

section \<open>Kruskal's scan on the complete graph\<close>

lemma find_rep_iff:
  assumes "uf_inv uf" and "x < length (parent uf)"
  shows "find_rep uf x = Some r \<longleftrightarrow> rep (parent uf) x r"
proof -
  from find_ok [OF assms] obtain uf' r' where "uf_find uf x = Some (uf', r')"
    and "rep (parent uf) x r'"
    by blast
  then show ?thesis
    by (auto simp: find_rep_def dest: rep_det)
qed

lemma find_rep_Some:
  assumes "uf_inv uf" and "x < length (parent uf)"
  shows "\<exists>r. find_rep uf x = Some r \<and> rep (parent uf) x r"
  using find_ok [OF assms] by (auto simp: find_rep_def)

lemma find_rep_eq_iff:
  assumes inv: "uf_inv uf" and i: "i < length (parent uf)" and j: "j < length (parent uf)"
  shows "find_rep uf i = find_rep uf j \<longleftrightarrow> (\<exists>r. rep (parent uf) i r \<and> rep (parent uf) j r)"
proof -
  from find_rep_Some [OF inv i] obtain ri where ri: "find_rep uf i = Some ri" "rep (parent uf) i ri"
    by blast
  from find_rep_Some [OF inv j] obtain rj where rj: "find_rep uf j = Some rj" "rep (parent uf) j rj"
    by blast
  from ri rj show ?thesis
    by (auto dest: rep_det)
qed

lemma conn_member: "p \<in> E \<Longrightarrow> p \<in> conn E"
  by (cases p) (simp add: conn_edge)

lemma kruskalSel_mono: "set acc \<subseteq> set (kruskalSel n es acc)"
proof (induction es arbitrary: acc)
  case Nil
  show ?case
    by simp
next
  case (Cons e es)
  from Cons.IH [of acc] Cons.IH [of "acc @ [e]"] show ?case
    by (cases "ends e \<in> conn (ends ` set acc)") (auto simp: kruskalSel_skip kruskalSel_accept)
qed

lemma kruskalSel_result:
  "int (length (kruskalSel n es acc)) = int n - 1
   \<or> (\<forall>e \<in> set es. ends e \<in> conn (ends ` set (kruskalSel n es acc)))"
proof (induction es arbitrary: acc)
  case Nil
  then show ?case
    by simp
next
  case (Cons e es)
  show ?case
  proof (cases "ends e \<in> conn (ends ` set acc)")
    case True
    have "conn (ends ` set acc) \<subseteq> conn (ends ` set (kruskalSel n es acc))"
      by (intro conn_mono image_mono kruskalSel_mono)
    with True Cons.IH [of acc] show ?thesis
      by (auto simp: kruskalSel_skip)
  next
    case False
    show ?thesis
    proof (cases "int (length acc) + 1 = int n - 1")
      case True
      with False show ?thesis
        by (simp add: kruskalSel_accept)
    next
      case stop: False
      have "e \<in> set (kruskalSel n es (acc @ [e]))"
        using kruskalSel_mono [of "acc @ [e]" n es] by auto
      then have "ends e \<in> conn (ends ` set (kruskalSel n es (acc @ [e])))"
        by (intro conn_member imageI)
      with False stop Cons.IH [of "acc @ [e]"] show ?thesis
        by (auto simp: kruskalSel_accept)
    qed
  qed
qed

lemma kruskal_inv_one_root:
  assumes k: "kruskal_inv n uf mst" and c: "card (roots uf) = 1" and i: "i < n" and j: "j < n"
  shows "find_rep uf i = find_rep uf j \<and> find_rep uf i \<noteq> None"
proof -
  from k have inv: "uf_inv uf" and len: "length (parent uf) = n"
    by (simp_all add: kruskal_inv_def)
  from find_rep_Some [OF inv] i len obtain ri where ri: "find_rep uf i = Some ri" "rep (parent uf) i ri"
    by blast
  from find_rep_Some [OF inv] j len obtain rj where rj: "find_rep uf j = Some rj" "rep (parent uf) j rj"
    by blast
  from ri rj have "ri \<in> roots uf" "rj \<in> roots uf"
    by (auto simp: roots_def dest: rep_bounds)
  with c have "ri = rj"
    by (auto simp: card_1_singleton_iff)
  with ri rj show ?thesis
    by simp
qed

lemma kruskal_inv_connected_roots:
  assumes k: "kruskal_inv n uf mst" and n: "0 < n"
    and all: "\<forall>i < n. \<forall>j < n. (i, j) \<in> conn (mst_ends ` set mst)"
  shows "card (roots uf) = 1"
proof -
  from k have inv: "uf_inv uf" and len: "length (parent uf) = n"
    and cn: "\<And>i j. i < n \<Longrightarrow> j < n \<Longrightarrow>
        (\<exists>r. rep (parent uf) i r \<and> rep (parent uf) j r) \<longleftrightarrow> (i, j) \<in> conn (mst_ends ` set mst)"
    by (simp_all add: kruskal_inv_def)
  from inv n len obtain r0 where r0: "rep (parent uf) 0 r0"
    by (auto simp: uf_inv_def)
  have "roots uf = {r0}"
  proof (intro set_eqI iffI)
    fix x
    assume "x \<in> roots uf"
    then have x: "x < n" "parent uf ! x = x"
      by (simp_all add: roots_def len)
    with all cn [of x 0] n obtain r where "rep (parent uf) x r" "rep (parent uf) 0 r"
      by auto
    with x r0 have "x = r0"
      by (auto dest: rep_det rep_of_root)
    then show "x \<in> {r0}"
      by simp
  next
    fix x
    assume "x \<in> {r0}"
    with r0 show "x \<in> roots uf"
      by (auto simp: roots_def dest: rep_bounds)
  qed
  then show ?thesis
    by simp
qed

lemma complete_connected:
  assumes sub: "{(i, j). i < j \<and> j < n} \<subseteq> conn E" and i: "i < n" and j: "j < n"
  shows "(i, j) \<in> conn E"
proof -
  consider "i < j" | "i = j" | "j < i"
    by linarith
  then show ?thesis
  proof cases
    case 1
    with sub j show ?thesis
      by auto
  next
    case 2
    then show ?thesis
      by (simp add: conn_refl)
  next
    case 3
    with sub i have "(j, i) \<in> conn E"
      by auto
    then show ?thesis
      by (rule conn_sym)
  qed
qed

lemma kruskal_complete:
  assumes k: "kruskal_inv n uf (map toMst (kruskalSel n es []))" and n: "2 \<le> n"
    and complete: "{(i, j). i < j \<and> j < n} \<subseteq> ends ` set es"
  shows "card (roots uf) = 1 \<and> length (kruskalSel n es []) = n - 1"
proof -
  let ?F = "kruskalSel n es []"
  from k have cd: "card (roots uf) + length ?F = n"
    by (simp add: kruskal_inv_def)
  have E: "mst_ends ` set (map toMst ?F) = ends ` set ?F"
    by (simp add: image_image)
  from kruskalSel_result [of n es "[]"] show ?thesis
  proof
    assume "int (length ?F) = int n - 1"
    with cd n show ?thesis
      by linarith
  next
    assume "\<forall>e \<in> set es. ends e \<in> conn (ends ` set ?F)"
    with complete have "{(i, j). i < j \<and> j < n} \<subseteq> conn (ends ` set ?F)"
      by auto
    then have "\<forall>i < n. \<forall>j < n. (i, j) \<in> conn (mst_ends ` set (map toMst ?F))"
      unfolding E by (auto intro: complete_connected)
    with k n have "card (roots uf) = 1"
      by (intro kruskal_inv_connected_roots [of n uf "map toMst ?F"]) auto
    with cd show ?thesis
      by linarith
  qed
qed

text \<open>
  Claim C1. Where the connector does not throw and there are \<open>n \<ge> 2\<close> shapes, the two
  loops return; Kruskal's scan of their sorted output from the fresh structure returns;
  it has accepted \<open>n - 1\<close> edges; in the structure after the scan \<^verbatim>\<open>find\<close> returns the
  same representative for all indices below \<open>n\<close>; the scanned edges and the accepted
  edges are the \<open>pairs\<close> and the \<open>mstEdges\<close> of every result of the merge; and the merge
  returns where \<^verbatim>\<open>turf.union\<close> returns a shape.
\<close>

theorem kruskal_spanning:
  assumes "turf_returns lib polys" and "2 \<le> length polys"
  shows "\<exists>unsorted uf mst. edgesOuter lib polys 0 [] = Inr unsorted
           \<and> kruskalLoop (length polys) (sortEdges unsorted)
                (newUnionFind (length polys)) [] = Some (uf, mst)
           \<and> length mst = length polys - 1
           \<and> (\<forall>i < length polys. \<forall>j < length polys.
                 find_rep uf i = find_rep uf j \<and> find_rep uf i \<noteq> None)
           \<and> (\<forall>r. mergePolygonsWithShortestCorridors lib polys opts = Some (Inr r) \<longrightarrow>
                 pairs (result_debug r) = sortEdges unsorted \<and> mstEdges (result_debug r) = mst)
           \<and> ((\<forall>x y. turf_union lib x y \<noteq> None) \<longrightarrow>
                 (\<exists>r. mergePolygonsWithShortestCorridors lib polys opts = Some (Inr r)))"
proof -
  let ?n = "length polys"
  let ?es = "connectionEdges lib polys"
  let ?F = "kruskalSel ?n ?es []"
  have e: "edgesOuter lib polys 0 [] = Inr (map (mkEdge lib polys) (indexPairs ?n))"
    by (rule edgesOuter_indexPairs [OF assms(1)])
  have s: "sortEdges (map (mkEdge lib polys) (indexPairs ?n)) = ?es"
    by (simp add: connectionEdges_def)
  from kruskal_stage [of polys lib] obtain uf where
    l: "kruskalLoop ?n ?es (newUnionFind ?n) [] = Some (uf, map toMst ?F)"
    and k: "kruskal_inv ?n uf (map toMst ?F)"
    by (elim exE conjE)
  from map_ends_connectionEdges [of lib polys]
  have "{(i, j). i < j \<and> j < ?n} \<subseteq> ends ` set ?es"
    by simp
  from kruskal_complete [OF k assms(2) this]
  have c: "card (roots uf) = 1" and len: "length ?F = ?n - 1"
    by simp_all
  have f: "\<forall>i < ?n. \<forall>j < ?n. find_rep uf i = find_rep uf j \<and> find_rep uf i \<noteq> None"
    by (intro allI impI) (rule kruskal_inv_one_root [OF k c])
  have len': "length (map toMst ?F) = ?n - 1"
    using len by simp
  have p: "\<forall>r. mergePolygonsWithShortestCorridors lib polys opts = Some (Inr r) \<longrightarrow>
             pairs (result_debug r) = ?es \<and> mstEdges (result_debug r) = map toMst ?F"
    using merge_debug [OF assms] by blast
  have r: "(\<forall>x y. turf_union lib x y \<noteq> None) \<longrightarrow>
             (\<exists>r. mergePolygonsWithShortestCorridors lib polys opts = Some (Inr r))"
    using merge_returns [OF assms] by blast
  show ?thesis
    apply (rule exI [of _ "map (mkEdge lib polys) (indexPairs ?n)"])
    apply (rule exI [of _ uf])
    apply (rule exI [of _ "map toMst ?F"])
    unfolding s
    apply (intro conjI)
         apply (rule e)
        apply (rule l)
       apply (rule len')
      apply (rule f)
     apply (rule p)
    apply (rule r)
    done
qed

theorem kruskal_spanning_witness:
  "kruskalLoop 3 (pairs (result_debug threeDotsResult)) (newUnionFind 3) [] =
     Some (\<lparr>parent = [0, 0, 0], rank = [1, 0, 0]\<rparr>, mstEdges (result_debug threeDotsResult))
   \<and> length (mstEdges (result_debug threeDotsResult)) = 2
   \<and> find_rep \<lparr>parent = [0, 0, 0], rank = [1, 0, 0]\<rparr> 0 =
       find_rep \<lparr>parent = [0, 0, 0], rank = [1, 0, 0]\<rparr> 1
   \<and> find_rep \<lparr>parent = [0, 0, 0], rank = [1, 0, 0]\<rparr> 1 =
       find_rep \<lparr>parent = [0, 0, 0], rank = [1, 0, 0]\<rparr> 2"
proof -
  have n: "2 \<le> length threeDots"
    by (simp add: threeDots_def)
  have len: "length threeDots = 3"
    by (simp add: threeDots_def)
  from kruskal_spanning [OF turf_returns_planarTurf n, of None] obtain unsorted uf mst where
    l: "kruskalLoop (length threeDots) (sortEdges unsorted)
              (newUnionFind (length threeDots)) [] = Some (uf, mst)"
    and m: "length mst = length threeDots - 1"
    and f: "\<forall>i < length threeDots. \<forall>j < length threeDots.
              find_rep uf i = find_rep uf j \<and> find_rep uf i \<noteq> None"
    and d: "\<forall>r. mergePolygonsWithShortestCorridors planarTurf threeDots None = Some (Inr r) \<longrightarrow>
              pairs (result_debug r) = sortEdges unsorted \<and> mstEdges (result_debug r) = mst"
    by (elim exE conjE)
  from d merge_threeDots [of None]
  have rr: "sortEdges unsorted = pairs (result_debug threeDotsResult)"
    "mst = mstEdges (result_debug threeDotsResult)"
    by simp_all
  have p: "pairs (result_debug threeDotsResult) =
      [\<lparr>edge_a = 0, edge_b = 1, edge_distance = 3, edge_seg = lineString [(0, 0), (3, 0)]\<rparr>,
       \<lparr>edge_a = 0, edge_b = 2, edge_distance = 4, edge_seg = lineString [(0, 0), (0, 4)]\<rparr>,
       \<lparr>edge_a = 1, edge_b = 2, edge_distance = 7, edge_seg = lineString [(3, 0), (0, 4)]\<rparr>]"
    by (simp add: threeDotsResult_def lineString_def)
  have ms: "mstEdges (result_debug threeDotsResult) =
      [\<lparr>mst_a = 0, mst_b = 1, mst_seg = lineString [(0, 0), (3, 0)]\<rparr>,
       \<lparr>mst_a = 0, mst_b = 2, mst_seg = lineString [(0, 0), (0, 4)]\<rparr>]"
    by (simp add: threeDotsResult_def lineString_def)
  have kl: "kruskalLoop 3 (pairs (result_debug threeDotsResult)) (newUnionFind 3) [] =
     Some (\<lparr>parent = [0, 0, 0], rank = [1, 0, 0]\<rparr>, mstEdges (result_debug threeDotsResult))"
    by (simp only: p ms kruskal_three)
  from l have u: "uf = \<lparr>parent = [0, 0, 0], rank = [1, 0, 0]\<rparr>"
    unfolding rr len kl by simp
  have f01: "find_rep \<lparr>parent = [0, 0, 0], rank = [1, 0, 0]\<rparr> 0 =
             find_rep \<lparr>parent = [0, 0, 0], rank = [1, 0, 0]\<rparr> 1"
    using f [rule_format, of 0 1] unfolding u len by simp
  have f12: "find_rep \<lparr>parent = [0, 0, 0], rank = [1, 0, 0]\<rparr> 1 =
             find_rep \<lparr>parent = [0, 0, 0], rank = [1, 0, 0]\<rparr> 2"
    using f [rule_format, of 1 2] unfolding u len by simp
  have m': "length (mstEdges (result_debug threeDotsResult)) = 2"
    using m unfolding rr len by simp
  show ?thesis
    by (intro conjI) (rule kl, rule m', rule f01, rule f12)
qed
section \<open>The invariant of Kruskal's scan\<close>

lemma find_rep_preserved:
  assumes inv: "uf_inv uf" and inv': "uf_inv uf'"
    and len: "length (parent uf') = length (parent uf)"
    and eq: "\<forall>y s. rep (parent uf') y s \<longleftrightarrow> rep (parent uf) y s"
    and y: "y < length (parent uf)"
  shows "find_rep uf' y = find_rep uf y"
proof -
  from find_rep_Some [OF inv y] obtain s where s: "find_rep uf y = Some s" "rep (parent uf) y s"
    by blast
  from s eq have "rep (parent uf') y s"
    by simp
  with find_rep_iff [OF inv', of y s] y len have "find_rep uf' y = Some s"
    by simp
  with s show ?thesis
    by simp
qed

lemma uf_find_compress:
  assumes inv: "uf_inv uf" and x: "x < length (parent uf)"
  shows "\<exists>uf' r. uf_find uf x = Some (uf', r) \<and> uf_inv uf'
           \<and> length (parent uf') = length (parent uf)
           \<and> find_rep uf x = Some r \<and> parent uf' ! x = r \<and> parent uf' ! r = r
           \<and> (\<forall>y < length (parent uf). find_rep uf' y = find_rep uf y)
           \<and> (\<forall>y < length (parent uf).
                 parent uf' ! y = parent uf ! y
                 \<or> parent uf' ! y = r \<and> find_rep uf y = Some r)
           \<and> (\<forall>y < length (parent uf).
                 parent uf' ! y = (if on_path (parent uf) x y then r else parent uf ! y))
           \<and> rank uf' = rank uf"
proof -
  from find_ok [OF inv x] obtain uf' r where
    f: "uf_find uf x = Some (uf', r)" and xr: "rep (parent uf) x r"
    and inv': "uf_inv uf'" and rk: "rank uf' = rank uf"
    and len: "length (parent uf') = length (parent uf)"
    and eq: "\<forall>y s. rep (parent uf') y s \<longleftrightarrow> rep (parent uf) y s"
    and px: "parent uf' ! x = r"
    by blast
  from xr eq have "rep (parent uf') x r"
    by simp
  then have rr: "parent uf' ! r = r"
    by (auto dest: rep_bounds)
  from f have fr: "find_rep uf x = Some r"
    by (simp add: find_rep_def)
  have pres: "\<forall>y < length (parent uf). find_rep uf' y = find_rep uf y"
    by (intro allI impI) (rule find_rep_preserved [OF inv inv' len eq])
  have ptr: "\<forall>y < length (parent uf).
      parent uf' ! y = parent uf ! y \<or> parent uf' ! y = r \<and> find_rep uf y = Some r"
  proof (intro allI impI)
    fix y
    assume y: "y < length (parent uf)"
    from uf_find_pointers [OF xr refl f, rule_format, OF y] find_rep_iff [OF inv y, of r]
    show "parent uf' ! y = parent uf ! y \<or> parent uf' ! y = r \<and> find_rep uf y = Some r"
      by blast
  qed
  note ex = uf_find_exact [OF xr refl f]
  from f inv' len fr px rr pres ptr ex rk show ?thesis
    by (intro exI [of _ uf'] exI [of _ r]) (simp only: simp_thms)
qed

lemma uf_union_sets:
  assumes inv: "uf_inv uf" and a: "a < length (parent uf)" and b: "b < length (parent uf)"
  shows "\<exists>uf'. uf_union uf a b = Some uf' \<and> uf_inv uf'
           \<and> length (parent uf') = length (parent uf)
           \<and> (\<forall>i < length (parent uf). \<forall>j < length (parent uf).
                 find_rep uf' i = find_rep uf' j \<longleftrightarrow>
                   find_rep uf i = find_rep uf j
                   \<or> find_rep uf i = find_rep uf a \<and> find_rep uf j = find_rep uf b
                   \<or> find_rep uf i = find_rep uf b \<and> find_rep uf j = find_rep uf a)
           \<and> (\<forall>ra rb. find_rep uf a = Some ra \<and> find_rep uf b = Some rb \<and> ra \<noteq> rb \<longrightarrow>
                 find_rep uf' a = Some (if rank uf ! ra < rank uf ! rb then rb else ra)
                 \<and> find_rep uf' b = Some (if rank uf ! ra < rank uf ! rb then rb else ra)
                 \<and> parent uf' ! (if rank uf ! ra < rank uf ! rb then ra else rb) =
                     (if rank uf ! ra < rank uf ! rb then rb else ra)
                 \<and> rank uf' = (if rank uf ! ra = rank uf ! rb
                                then (rank uf)[ra := rank uf ! ra + 1] else rank uf))"
proof -
  let ?l = "parent uf"
  from find_rep_Some [OF inv a] obtain ra where ra: "find_rep uf a = Some ra" "rep ?l a ra"
    by blast
  from find_rep_Some [OF inv b] obtain rb where rb: "find_rep uf b = Some rb" "rep ?l b rb"
    by blast
  show ?thesis
  proof (cases "ra = rb")
    case True
    with rb have rb': "rep ?l b ra"
      by simp
    from uf_union_same [OF inv a b ra(2) rb'] obtain uf' where
      u: "uf_union uf a b = Some uf'" and inv': "uf_inv uf'"
      and len: "length (parent uf') = length ?l"
      and eq: "\<forall>y s. rep (parent uf') y s \<longleftrightarrow> rep ?l y s"
      by (elim exE conjE)
    have pres: "find_rep uf' y = find_rep uf y" if "y < length ?l" for y
      by (rule find_rep_preserved [OF inv inv' len eq that])
    have "find_rep uf' i = find_rep uf' j \<longleftrightarrow>
            find_rep uf i = find_rep uf j
            \<or> find_rep uf i = find_rep uf a \<and> find_rep uf j = find_rep uf b
            \<or> find_rep uf i = find_rep uf b \<and> find_rep uf j = find_rep uf a"
      if "i < length ?l" "j < length ?l" for i j
      using that True ra rb by (auto simp: pres)
    with u inv' len True ra rb show ?thesis
      by (intro exI [of _ uf']) simp
  next
    case False
    define keep where "keep = (if rank uf ! ra < rank uf ! rb then rb else ra)"
    define lose where "lose = (if rank uf ! ra < rank uf ! rb then ra else rb)"
    have kl: "keep = ra \<and> lose = rb \<or> keep = rb \<and> lose = ra"
      by (simp add: keep_def lose_def)
    from uf_union_link [OF inv a b ra(2) rb(2) False] obtain uf' where
      u: "uf_union uf a b = Some uf'" and inv': "uf_inv uf'"
      and len: "length (parent uf') = length ?l"
      and link: "\<forall>y s. rep ?l y s \<longrightarrow> rep (parent uf') y (if s = lose then keep else s)"
      and pl: "parent uf' ! lose = keep"
      and rk: "rank uf' = (if rank uf ! ra = rank uf ! rb
                            then (rank uf)[ra := rank uf ! ra + 1] else rank uf)"
      unfolding keep_def lose_def by (elim exE conjE)
    have new: "find_rep uf' y = Some (if s = lose then keep else s)"
      if "y < length ?l" "find_rep uf y = Some s" for y s
    proof -
      from that find_rep_iff [OF inv, of y s] have "rep ?l y s"
        by simp
      with link have "rep (parent uf') y (if s = lose then keep else s)"
        by blast
      with find_rep_iff [OF inv', of y] that len show ?thesis
        by simp
    qed
    have "find_rep uf' i = find_rep uf' j \<longleftrightarrow>
            find_rep uf i = find_rep uf j
            \<or> find_rep uf i = find_rep uf a \<and> find_rep uf j = find_rep uf b
            \<or> find_rep uf i = find_rep uf b \<and> find_rep uf j = find_rep uf a"
      if i: "i < length ?l" and j: "j < length ?l" for i j
    proof -
      from find_rep_Some [OF inv i] obtain si where si: "find_rep uf i = Some si"
        by blast
      from find_rep_Some [OF inv j] obtain sj where sj: "find_rep uf j = Some sj"
        by blast
      from kl False show ?thesis
        unfolding new [OF i si] new [OF j sj] si sj ra(1) rb(1) by auto
    qed
    moreover have "find_rep uf' a = Some keep" "find_rep uf' b = Some keep"
      using new [OF a ra(1)] new [OF b rb(1)] kl False by auto
    ultimately show ?thesis
      using u inv' len ra rb False pl rk unfolding keep_def lose_def
      by (intro exI [of _ uf']) simp
  qed
qed

lemma kruskal_prefix:
  assumes range: "\<forall>e \<in> set es. edge_a e < n \<and> edge_b e < n"
  shows "\<exists>uf mst. kruskalLoop n (take k es) (newUnionFind n) [] = Some (uf, mst)
           \<and> uf_inv uf \<and> length (parent uf) = n
           \<and> (\<forall>i < n. \<forall>j < n. find_rep uf i \<noteq> None
                 \<and> (find_rep uf i = find_rep uf j \<longleftrightarrow> (i, j) \<in> conn (mst_ends ` set mst)))"
proof -
  let ?F = "kruskalSel n (take k es) []"
  from range have "\<forall>e \<in> set (take k es). edge_a e < n \<and> edge_b e < n"
    by (auto dest: in_set_takeD)
  from kruskalLoop_sel [of n "newUnionFind n" "[]" "take k es"] kruskal_inv_init [of n] this
  obtain uf where l: "kruskalLoop n (take k es) (newUnionFind n) [] = Some (uf, map toMst ?F)"
    and k: "kruskal_inv n uf (map toMst ?F)"
    by auto
  from k have inv: "uf_inv uf" and len: "length (parent uf) = n"
    and cn: "\<And>i j. i < n \<Longrightarrow> j < n \<Longrightarrow>
        (\<exists>r. rep (parent uf) i r \<and> rep (parent uf) j r)
          \<longleftrightarrow> (i, j) \<in> conn (mst_ends ` set (map toMst ?F))"
    by (simp_all add: kruskal_inv_def)
  have "find_rep uf i \<noteq> None
      \<and> (find_rep uf i = find_rep uf j \<longleftrightarrow> (i, j) \<in> conn (mst_ends ` set (map toMst ?F)))"
    if "i < n" "j < n" for i j
    using find_rep_Some [OF inv, of i] find_rep_eq_iff [OF inv, of i j] cn [OF that] that len
    by auto
  with l inv len show ?thesis
    by (intro exI [of _ uf] exI [of _ "map toMst ?F"]) simp
qed

text \<open>
  Claim C9. For a list of edges between indices below \<open>n\<close>, Kruskal's scan of any
  prefix from the fresh structure returns a well-formed structure in which \<^verbatim>\<open>find\<close>
  returns for every index, and two indices have the same representative exactly when
  the edges accepted so far connect them. On a well-formed structure, \<^verbatim>\<open>find(x)\<close>
  returns the representative \<open>r\<close> of \<open>x\<close>, leaves \<open>x\<close> pointing at \<open>r\<close> (path
  compression), changes a parent pointer only to the representative \<open>r\<close> of its index,
  and changes no representative; the parent pointers after it are \<open>r\<close> at every index on
  the path from \<open>x\<close> to its root and the old ones elsewhere, and the ranks are the old
  ones; \<^verbatim>\<open>union(a, b)\<close> returns, puts two indices in one set
  exactly when they were in one set or one was in the set of \<open>a\<close> and the other in the
  set of \<open>b\<close>, and, when the two roots differ, hangs the root of smaller rank below the
  other one (the root of \<open>b\<close> below that of \<open>a\<close> at equal ranks, whose rank then grows
  by one): union by rank.
\<close>

theorem kruskal_invariant:
  assumes "\<forall>e \<in> set es. edge_a e < n \<and> edge_b e < n"
  shows "(\<exists>uf mst. kruskalLoop n (take k es) (newUnionFind n) [] = Some (uf, mst)
            \<and> uf_inv uf \<and> length (parent uf) = n
            \<and> (\<forall>i < n. \<forall>j < n. find_rep uf i \<noteq> None
                  \<and> (find_rep uf i = find_rep uf j \<longleftrightarrow> (i, j) \<in> conn (mst_ends ` set mst))))
       \<and> (uf_inv u \<and> x < length (parent u) \<longrightarrow>
            (\<exists>u' r. uf_find u x = Some (u', r) \<and> uf_inv u'
               \<and> length (parent u') = length (parent u)
               \<and> find_rep u x = Some r \<and> parent u' ! x = r \<and> parent u' ! r = r
               \<and> (\<forall>y < length (parent u). find_rep u' y = find_rep u y)
               \<and> (\<forall>y < length (parent u).
                     parent u' ! y = parent u ! y
                     \<or> parent u' ! y = r \<and> find_rep u y = Some r)
               \<and> (\<forall>y < length (parent u).
                     parent u' ! y = (if on_path (parent u) x y then r else parent u ! y))
               \<and> rank u' = rank u))
       \<and> (uf_inv u \<and> a < length (parent u) \<and> b < length (parent u) \<longrightarrow>
            (\<exists>u'. uf_union u a b = Some u' \<and> uf_inv u'
               \<and> length (parent u') = length (parent u)
               \<and> (\<forall>i < length (parent u). \<forall>j < length (parent u).
                     find_rep u' i = find_rep u' j \<longleftrightarrow>
                       find_rep u i = find_rep u j
                       \<or> find_rep u i = find_rep u a \<and> find_rep u j = find_rep u b
                       \<or> find_rep u i = find_rep u b \<and> find_rep u j = find_rep u a)
               \<and> (\<forall>ra rb. find_rep u a = Some ra \<and> find_rep u b = Some rb \<and> ra \<noteq> rb \<longrightarrow>
                     find_rep u' a = Some (if rank u ! ra < rank u ! rb then rb else ra)
                     \<and> find_rep u' b = Some (if rank u ! ra < rank u ! rb then rb else ra)
                     \<and> parent u' ! (if rank u ! ra < rank u ! rb then ra else rb) =
                         (if rank u ! ra < rank u ! rb then rb else ra)
                     \<and> rank u' = (if rank u ! ra = rank u ! rb
                                   then (rank u)[ra := rank u ! ra + 1] else rank u))))"
proof (intro conjI impI)
  show "\<exists>uf mst. kruskalLoop n (take k es) (newUnionFind n) [] = Some (uf, mst)
            \<and> uf_inv uf \<and> length (parent uf) = n
            \<and> (\<forall>i < n. \<forall>j < n. find_rep uf i \<noteq> None
                  \<and> (find_rep uf i = find_rep uf j \<longleftrightarrow> (i, j) \<in> conn (mst_ends ` set mst)))"
    by (rule kruskal_prefix [OF assms])
next
  assume "uf_inv u \<and> x < length (parent u)"
  then show "\<exists>u' r. uf_find u x = Some (u', r) \<and> uf_inv u'
               \<and> length (parent u') = length (parent u)
               \<and> find_rep u x = Some r \<and> parent u' ! x = r \<and> parent u' ! r = r
               \<and> (\<forall>y < length (parent u). find_rep u' y = find_rep u y)
               \<and> (\<forall>y < length (parent u).
                     parent u' ! y = parent u ! y
                     \<or> parent u' ! y = r \<and> find_rep u y = Some r)
               \<and> (\<forall>y < length (parent u).
                     parent u' ! y = (if on_path (parent u) x y then r else parent u ! y))
               \<and> rank u' = rank u"
    by (intro uf_find_compress) simp_all
next
  assume "uf_inv u \<and> a < length (parent u) \<and> b < length (parent u)"
  then show "\<exists>u'. uf_union u a b = Some u' \<and> uf_inv u'
               \<and> length (parent u') = length (parent u)
               \<and> (\<forall>i < length (parent u). \<forall>j < length (parent u).
                     find_rep u' i = find_rep u' j \<longleftrightarrow>
                       find_rep u i = find_rep u j
                       \<or> find_rep u i = find_rep u a \<and> find_rep u j = find_rep u b
                       \<or> find_rep u i = find_rep u b \<and> find_rep u j = find_rep u a)
               \<and> (\<forall>ra rb. find_rep u a = Some ra \<and> find_rep u b = Some rb \<and> ra \<noteq> rb \<longrightarrow>
                     find_rep u' a = Some (if rank u ! ra < rank u ! rb then rb else ra)
                     \<and> find_rep u' b = Some (if rank u ! ra < rank u ! rb then rb else ra)
                     \<and> parent u' ! (if rank u ! ra < rank u ! rb then ra else rb) =
                         (if rank u ! ra < rank u ! rb then rb else ra)
                     \<and> rank u' = (if rank u ! ra = rank u ! rb
                                   then (rank u)[ra := rank u ! ra + 1] else rank u))"
    by (intro uf_union_sets) simp_all
qed

lemma uf_inv_example: "uf_inv \<lparr>parent = [0, 0, 2], rank = [1, 0, 0]\<rparr>"
proof -
  have 0: "rep [0, 0, 2] 0 0"
    by (rule rep.rep_root) simp_all
  have 2: "rep [0, 0, 2] 2 2"
    by (rule rep.rep_root) simp_all
  have 1: "rep [0, 0, 2] 1 0"
    by (rule rep.rep_step) (simp_all add: 0)
  have "\<exists>r. rep [0, 0, 2] x r" if "x < 3" for x
  proof -
    from that consider "x = 0" | "x = 1" | "x = 2"
      by linarith
    then show ?thesis
      using 0 1 2 by cases blast+
  qed
  then show ?thesis
    by (simp add: uf_inv_def)
qed

lemma uf_inv_chain: "uf_inv \<lparr>parent = [0, 0, 1, 2], rank = [3, 2, 1, 0]\<rparr>"
proof -
  have 0: "rep [0, 0, 1, 2] 0 0"
    by (rule rep.rep_root) simp_all
  have 1: "rep [0, 0, 1, 2] 1 0"
    using 0 by - (rule rep.rep_step, simp_all)
  have 2: "rep [0, 0, 1, 2] 2 0"
    using 1 by - (rule rep.rep_step, simp_all)
  have 3: "rep [0, 0, 1, 2] 3 0"
    using 2 by - (rule rep.rep_step, simp_all)
  have "\<exists>r. rep [0, 0, 1, 2] x r" if "x < 4" for x
  proof -
    from that consider "x = 0" | "x = 1" | "x = 2" | "x = 3"
      by linarith
    then show ?thesis
      using 0 1 2 3 by cases blast+
  qed
  then show ?thesis
    by (simp add: uf_inv_def)
qed

theorem kruskal_invariant_witness:
  "(\<exists>uf mst. kruskalLoop 3 (take 1 (pairs (result_debug threeDotsResult)))
                (newUnionFind 3) [] = Some (uf, mst)
            \<and> length (parent uf) = 3 \<and> find_rep uf 0 \<noteq> None)
   \<and> (\<exists>u' r. uf_find \<lparr>parent = [0, 0, 2], rank = [1, 0, 0]\<rparr> 1 = Some (u', r)
          \<and> parent u' ! 1 = r)
   \<and> (\<exists>u'. uf_union \<lparr>parent = [0, 0, 2], rank = [1, 0, 0]\<rparr> 1 2 = Some u'
          \<and> find_rep u' 1 = find_rep u' 2)
   \<and> (\<exists>u' r. uf_find \<lparr>parent = [0, 0, 1, 2], rank = [3, 2, 1, 0]\<rparr> 3 = Some (u', r)
          \<and> parent u' ! 3 = r \<and> parent u' ! 2 = r \<and> parent u' ! 1 = r \<and> parent u' ! 0 = r
          \<and> rank u' = [3, 2, 1, 0])"
proof -
  let ?c = "\<lparr>parent = [0, 0, 1, 2], rank = [3, 2, 1, 0]\<rparr>"
  have hc: "uf_inv ?c \<and> 3 < length (parent ?c)"
    using uf_inv_chain by simp
  have p3: "on_path [0, 0, 1, 2] 3 3"
    by (rule on_path_start) simp
  have q0: "on_path [0, 0, 1, 2] 0 0" and q1: "on_path [0, 0, 1, 2] 1 1"
    and q2: "on_path [0, 0, 1, 2] 2 2"
    by (rule on_path_start, simp)+
  have q10: "on_path [0, 0, 1, 2] 1 0"
    using q0 by - (rule on_path_step, simp_all)
  have q21: "on_path [0, 0, 1, 2] 2 1"
    using q1 by - (rule on_path_step, simp_all)
  have q20: "on_path [0, 0, 1, 2] 2 0"
    using q10 by - (rule on_path_step, simp_all)
  have p2: "on_path [0, 0, 1, 2] 3 2"
    using q2 by - (rule on_path_step, simp_all)
  have p1: "on_path [0, 0, 1, 2] 3 1"
    using q21 by - (rule on_path_step, simp_all)
  have p0: "on_path [0, 0, 1, 2] 3 0"
    using q20 by - (rule on_path_step, simp_all)
  let ?es = "pairs (result_debug threeDotsResult)"
  let ?u = "\<lparr>parent = [0, 0, 2], rank = [1, 0, 0]\<rparr>"
  have range: "\<forall>e \<in> set ?es. edge_a e < 3 \<and> edge_b e < 3"
    by (simp add: threeDotsResult_def)
  note t = kruskal_invariant [OF range, of 1 ?u 1 1 2]
  have hx: "uf_inv ?u \<and> 1 < length (parent ?u)"
    using uf_inv_example by simp
  have hab: "uf_inv ?u \<and> 1 < length (parent ?u) \<and> 2 < length (parent ?u)"
    using uf_inv_example by simp
  from t [THEN conjunct1] obtain uf mst where
    "kruskalLoop 3 (take 1 ?es) (newUnionFind 3) [] = Some (uf, mst)" "length (parent uf) = 3"
    and f: "\<forall>i < 3. \<forall>j < 3. find_rep uf i \<noteq> None
              \<and> (find_rep uf i = find_rep uf j \<longleftrightarrow> (i, j) \<in> conn (mst_ends ` set mst))"
    by (elim exE conjE)
  moreover from f [rule_format, of 0 0] have "find_rep uf 0 \<noteq> None"
    by simp
  moreover from t [THEN conjunct2, THEN conjunct1, rule_format, OF hx] obtain u' r where
    "uf_find ?u 1 = Some (u', r)" "parent u' ! 1 = r"
    by (elim exE conjE)
  moreover from t [THEN conjunct2, THEN conjunct2, rule_format, OF hab] obtain u'' where
    "uf_union ?u 1 2 = Some u''"
    and s: "\<forall>i < length (parent ?u). \<forall>j < length (parent ?u).
                     find_rep u'' i = find_rep u'' j \<longleftrightarrow>
                       find_rep ?u i = find_rep ?u j
                       \<or> find_rep ?u i = find_rep ?u 1 \<and> find_rep ?u j = find_rep ?u 2
                       \<or> find_rep ?u i = find_rep ?u 2 \<and> find_rep ?u j = find_rep ?u 1"
    by (elim exE conjE)
  moreover from s [rule_format, of 1 2] have "find_rep u'' 1 = find_rep u'' 2"
    by simp
  ultimately have abc:
    "(\<exists>uf mst. kruskalLoop 3 (take 1 ?es) (newUnionFind 3) [] = Some (uf, mst)
            \<and> length (parent uf) = 3 \<and> find_rep uf 0 \<noteq> None)
     \<and> (\<exists>u' r. uf_find ?u 1 = Some (u', r) \<and> parent u' ! 1 = r)
     \<and> (\<exists>u'. uf_union ?u 1 2 = Some u' \<and> find_rep u' 1 = find_rep u' 2)"
    by blast
  from kruskal_invariant [OF range, of 1 ?c 3 1 2, THEN conjunct2, THEN conjunct1,
      rule_format, OF hc]
  obtain c' rc where fc: "uf_find ?c 3 = Some (c', rc)"
    and e: "\<forall>y < length (parent ?c).
              parent c' ! y = (if on_path (parent ?c) 3 y then rc else parent ?c ! y)"
    and k: "rank c' = rank ?c"
    by (elim exE conjE)
  from e [rule_format, of 3] p3 have c3: "parent c' ! 3 = rc"
    by simp
  from e [rule_format, of 2] p2 have c2: "parent c' ! 2 = rc"
    by simp
  from e [rule_format, of 1] p1 have c1: "parent c' ! 1 = rc"
    by simp
  from e [rule_format, of 0] p0 have c0: "parent c' ! 0 = rc"
    by simp
  from k have k': "rank c' = [3, 2, 1, 0]"
    by simp
  have d: "\<exists>u' r. uf_find ?c 3 = Some (u', r)
          \<and> parent u' ! 3 = r \<and> parent u' ! 2 = r \<and> parent u' ! 1 = r \<and> parent u' ! 0 = r
          \<and> rank u' = [3, 2, 1, 0]"
    by (intro exI [of _ c'] exI [of _ rc] conjI) (rule fc c3 c2 c1 c0 k')+
  show ?thesis
    by (intro conjI)
       (rule abc [THEN conjunct1], rule abc [THEN conjunct2, THEN conjunct1],
        rule abc [THEN conjunct2, THEN conjunct2], rule d)
qed

section \<open>Connected components\<close>

lemma conn_class_eq: "conn E `` {x} = conn E `` {y} \<longleftrightarrow> (x, y) \<in> conn E"
proof
  assume "conn E `` {x} = conn E `` {y}"
  moreover have "y \<in> conn E `` {y}"
    by (simp add: conn_refl)
  ultimately show "(x, y) \<in> conn E"
    by auto
next
  assume xy: "(x, y) \<in> conn E"
  show "conn E `` {x} = conn E `` {y}"
  proof (intro set_eqI iffI)
    fix z
    assume "z \<in> conn E `` {x}"
    with xy show "z \<in> conn E `` {y}"
      by (auto intro: conn_trans conn_sym)
  next
    fix z
    assume "z \<in> conn E `` {y}"
    with xy show "z \<in> conn E `` {x}"
      by (auto intro: conn_trans)
  qed
qed

lemma comps_empty: "comps n {} = n"
proof -
  have "conn {} `` {x} = {x}" for x
    by (auto simp: conn_empty)
  then have "(\<lambda>x. conn {} `` {x}) ` {..<n} = (\<lambda>x. {x}) ` {..<n}"
    by simp
  moreover have "card ((\<lambda>x. {x}) ` {..<n}) = n"
    by (simp add: card_image)
  ultimately show ?thesis
    by (simp add: comps_def)
qed

lemma comps_mono:
  assumes sub: "conn E1 \<subseteq> conn E2"
  shows "comps n E2 \<le> comps n E1"
proof -
  have cls: "conn E2 `` (conn E1 `` {x}) = conn E2 `` {x}" for x
  proof (intro set_eqI iffI)
    fix z
    assume "z \<in> conn E2 `` (conn E1 `` {x})"
    then obtain y where "(x, y) \<in> conn E1" "(y, z) \<in> conn E2"
      by auto
    with sub show "z \<in> conn E2 `` {x}"
      by (auto intro: conn_trans)
  next
    fix z
    assume "z \<in> conn E2 `` {x}"
    then show "z \<in> conn E2 `` (conn E1 `` {x})"
      using conn_refl [of x E1] by auto
  qed
  have "(\<lambda>x. conn E2 `` {x}) ` {..<n} = (\<lambda>C. conn E2 `` C) ` ((\<lambda>x. conn E1 `` {x}) ` {..<n})"
    by (simp add: image_image cls)
  then show ?thesis
    unfolding comps_def by (simp add: card_image_le)
qed

lemma conn_insert_same:
  assumes ab: "(a, b) \<in> conn E"
  shows "conn (insert (a, b) E) = conn E"
proof (rule antisym)
  from ab have "insert (a, b) E \<subseteq> conn E"
    by (auto intro: conn_member)
  then show "conn (insert (a, b) E) \<subseteq> conn E"
    by (rule conn_closed)
next
  show "conn E \<subseteq> conn (insert (a, b) E)"
    by (rule conn_mono) auto
qed

lemma conn_insert_class:
  "conn (insert (a, b) E) `` {x} =
     (if conn E `` {x} = conn E `` {a} \<or> conn E `` {x} = conn E `` {b}
      then conn E `` {a} \<union> conn E `` {b} else conn E `` {x})"
proof -
  have "y \<in> conn (insert (a, b) E) `` {x} \<longleftrightarrow>
        y \<in> (if (x, a) \<in> conn E \<or> (x, b) \<in> conn E
              then conn E `` {a} \<union> conn E `` {b} else conn E `` {x})" for y
    using conn_insert [of x y a b E]
    by (auto intro: conn_trans conn_sym)
  then show ?thesis
    unfolding conn_class_eq by blast
qed

lemma classes_insert:
  "(\<lambda>x. conn (insert (a, b) E) `` {x}) ` S =
     (\<lambda>C. if C = conn E `` {a} \<or> C = conn E `` {b} then conn E `` {a} \<union> conn E `` {b} else C) `
       ((\<lambda>x. conn E `` {x}) ` S)"
proof -
  have "(\<lambda>x. conn (insert (a, b) E) `` {x}) ` S =
      (\<lambda>x. if conn E `` {x} = conn E `` {a} \<or> conn E `` {x} = conn E `` {b}
            then conn E `` {a} \<union> conn E `` {b} else conn E `` {x}) ` S"
    by (intro image_cong refl conn_insert_class)
  then show ?thesis
    by (simp only: image_image)
qed

lemma card_image_merge_ge:
  assumes fin: "finite Q"
    and inj: "\<And>C D. C \<in> Q \<Longrightarrow> D \<in> Q \<Longrightarrow> C \<noteq> cb \<Longrightarrow> D \<noteq> cb \<Longrightarrow> h C = h D \<Longrightarrow> C = D"
  shows "card Q \<le> card (h ` Q) + 1"
proof -
  have "inj_on h (Q - {cb})"
    by (rule inj_onI) (auto intro: inj)
  then have "card (Q - {cb}) = card (h ` (Q - {cb}))"
    by (rule card_image [symmetric])
  also have "\<dots> \<le> card (h ` Q)"
    using fin by (intro card_mono finite_imageI image_mono) auto
  finally have "card (Q - {cb}) \<le> card (h ` Q)" .
  moreover have "card Q \<le> card (Q - {cb}) + 1"
    using fin by (cases "cb \<in> Q") (simp_all add: card_Suc_Diff1 [symmetric] del: card_Diff_insert)
  ultimately show ?thesis
    by linarith
qed

lemma card_image_merge_le:
  assumes fin: "finite Q" and ca: "ca \<in> Q" and cb: "cb \<in> Q" and ne: "ca \<noteq> cb"
    and eq: "h ca = h cb"
  shows "card (h ` Q) + 1 \<le> card Q"
proof -
  have "h ` Q = h ` (Q - {cb})"
  proof (intro set_eqI iffI)
    fix C
    assume "C \<in> h ` Q"
    then obtain D where D: "D \<in> Q" "C = h D"
      by auto
    show "C \<in> h ` (Q - {cb})"
    proof (cases "D = cb")
      case True
      with D eq have "C = h ca"
        by simp
      moreover from ca ne have "ca \<in> Q - {cb}"
        by simp
      ultimately show ?thesis
        by (rule image_eqI)
    next
      case False
      with D have "D \<in> Q - {cb}"
        by simp
      with D(2) show ?thesis
        by (rule image_eqI)
    qed
  next
    fix C
    assume "C \<in> h ` (Q - {cb})"
    then show "C \<in> h ` Q"
      by auto
  qed
  then have "card (h ` Q) \<le> card (Q - {cb})"
    using fin by (simp add: card_image_le)
  moreover from fin cb have "card (Q - {cb}) + 1 = card Q"
    by (simp add: card_Suc_Diff1 del: card_Diff_insert)
  ultimately show ?thesis
    by linarith
qed

lemma comps_insert_ge: "comps n E \<le> comps n (insert (a, b) E) + 1"
proof -
  define ca where "ca = conn E `` {a}"
  define cb where "cb = conn E `` {b}"
  define Q where "Q = (\<lambda>x. conn E `` {x}) ` {..<n}"
  define h where "h = (\<lambda>C. if C = ca \<or> C = cb then ca \<union> cb else C)"
  have img: "(\<lambda>x. conn (insert (a, b) E) `` {x}) ` {..<n} = h ` Q"
    unfolding h_def Q_def ca_def cb_def by (rule classes_insert)
  have fin: "finite Q"
    by (simp add: Q_def)
  have a: "a \<in> ca"
    by (simp add: ca_def conn_refl)
  have cls: "C = ca" if "C \<in> Q" "a \<in> C" for C
  proof -
    from that obtain x where "C = conn E `` {x}" "(x, a) \<in> conn E"
      by (auto simp: Q_def)
    then show ?thesis
      by (simp add: ca_def conn_class_eq)
  qed
  have inj: "C = D" if "C \<in> Q" "D \<in> Q" "C \<noteq> cb" "D \<noteq> cb" "h C = h D" for C D
  proof (cases "C = ca")
    case True
    show ?thesis
    proof (cases "D = ca")
      case True
      with \<open>C = ca\<close> show ?thesis
        by simp
    next
      case False
      with that True have "D = ca \<union> cb"
        by (simp add: h_def)
      with a have "a \<in> D"
        by simp
      with that(2) have "D = ca"
        by (rule cls)
      with False show ?thesis
        by simp
    qed
  next
    case False
    show ?thesis
    proof (cases "D = ca")
      case True
      with that False have "C = ca \<union> cb"
        by (simp add: h_def)
      with a have "a \<in> C"
        by simp
      with that(1) have "C = ca"
        by (rule cls)
      with False show ?thesis
        by simp
    next
      case Dca: False
      with False that show ?thesis
        by (simp add: h_def)
    qed
  qed
  from card_image_merge_ge [OF fin inj, of cb] show ?thesis
    by (simp add: comps_def img Q_def [symmetric])
qed

lemma comps_insert_le:
  assumes a: "a < n" and b: "b < n" and nc: "(a, b) \<notin> conn E"
  shows "comps n (insert (a, b) E) + 1 \<le> comps n E"
proof -
  define ca where "ca = conn E `` {a}"
  define cb where "cb = conn E `` {b}"
  define Q where "Q = (\<lambda>x. conn E `` {x}) ` {..<n}"
  define h where "h = (\<lambda>C. if C = ca \<or> C = cb then ca \<union> cb else C)"
  have img: "(\<lambda>x. conn (insert (a, b) E) `` {x}) ` {..<n} = h ` Q"
    unfolding h_def Q_def ca_def cb_def by (rule classes_insert)
  have fin: "finite Q"
    by (simp add: Q_def)
  from nc have ne: "ca \<noteq> cb"
    by (simp add: ca_def cb_def conn_class_eq)
  from a b have ca: "ca \<in> Q" and cb: "cb \<in> Q"
    by (auto simp: Q_def ca_def cb_def)
  have eq: "h ca = h cb"
    by (simp add: h_def)
  from card_image_merge_le [OF fin ca cb ne eq] show ?thesis
    by (simp add: comps_def img Q_def [symmetric])
qed

lemma comps_insert_new:
  assumes "a < n" and "b < n" and "(a, b) \<notin> conn E"
  shows "comps n (insert (a, b) E) + 1 = comps n E"
  using comps_insert_le [OF assms] comps_insert_ge [of n E a b] by simp

lemma comps_connected:
  assumes n: "0 < n"
  shows "comps n E = 1 \<longleftrightarrow> (\<forall>i < n. \<forall>j < n. (i, j) \<in> conn E)"
proof
  define Q where "Q = (\<lambda>x. conn E `` {x}) ` {..<n}"
  assume "comps n E = 1"
  then have "card Q = 1"
    by (simp add: comps_def Q_def)
  then have "\<exists>C. Q = {C}"
    by (simp add: card_1_singleton_iff)
  then obtain C where C: "Q = {C}"
    by (elim exE)
  show "\<forall>i < n. \<forall>j < n. (i, j) \<in> conn E"
  proof (intro allI impI)
    fix i j
    assume "i < n" "j < n"
    then have "conn E `` {i} \<in> Q" and "conn E `` {j} \<in> Q"
      by (auto simp: Q_def)
    then have "conn E `` {i} = C" and "conn E `` {j} = C"
      unfolding C by simp_all
    then have "conn E `` {i} = conn E `` {j}"
      by (rule trans [OF _ sym])
    then show "(i, j) \<in> conn E"
      by (simp only: conn_class_eq)
  qed
next
  assume all: "\<forall>i < n. \<forall>j < n. (i, j) \<in> conn E"
  have "(\<lambda>x. conn E `` {x}) ` {..<n} = {conn E `` {0}}"
  proof (intro set_eqI iffI)
    fix C
    assume "C \<in> (\<lambda>x. conn E `` {x}) ` {..<n}"
    then obtain x where x: "x < n" "C = conn E `` {x}"
      by auto
    from all x(1) n have "(x, 0) \<in> conn E"
      by blast
    then have "conn E `` {x} = conn E `` {0}"
      by (simp only: conn_class_eq)
    with x show "C \<in> {conn E `` {0}}"
      by simp
  next
    fix C
    assume "C \<in> {conn E `` {0}}"
    then have "C = conn E `` {0}"
      by simp
    with n show "C \<in> (\<lambda>x. conn E `` {x}) ` {..<n}"
      by (intro image_eqI [of _ _ 0]) simp_all
  qed
  then show "comps n E = 1"
    by (simp add: comps_def)
qed

section \<open>Kruskal's forest\<close>

lemma kruskalAll_append: "kruskalAll (xs @ ys) acc = kruskalAll ys (kruskalAll xs acc)"
  by (induction xs arbitrary: acc) simp_all

lemma kruskalAll_mono: "set acc \<subseteq> set (kruskalAll es acc)"
proof (induction es arbitrary: acc)
  case Nil
  show ?case
    by simp
next
  case (Cons e es)
  from Cons.IH [of acc] Cons.IH [of "acc @ [e]"] show ?case
    by (cases "ends e \<in> conn (ends ` set acc)") auto
qed

lemma kruskalAll_subset: "set (kruskalAll es acc) \<subseteq> set acc \<union> set es"
proof (induction es arbitrary: acc)
  case Nil
  show ?case
    by simp
next
  case (Cons e es)
  from Cons.IH [of acc] Cons.IH [of "acc @ [e]"] show ?case
    by (cases "ends e \<in> conn (ends ` set acc)") auto
qed

lemma kruskalAll_conn: "e \<in> set es \<Longrightarrow> ends e \<in> conn (ends ` set (kruskalAll es acc))"
proof (induction es arbitrary: acc)
  case Nil
  then show ?case
    by simp
next
  case (Cons x es)
  show ?case
  proof (cases "e = x")
    case True
    show ?thesis
    proof (cases "ends x \<in> conn (ends ` set acc)")
      case c: True
      have "conn (ends ` set acc) \<subseteq> conn (ends ` set (kruskalAll es acc))"
        by (intro conn_mono image_mono kruskalAll_mono)
      with c True show ?thesis
        by auto
    next
      case c: False
      have "x \<in> set (kruskalAll es (acc @ [x]))"
        using kruskalAll_mono [of "acc @ [x]" es] by auto
      then have "ends x \<in> conn (ends ` set (kruskalAll es (acc @ [x])))"
        by (intro conn_member imageI)
      with c True show ?thesis
        by simp
    qed
  next
    case False
    with Cons.prems have "e \<in> set es"
      by simp
    from Cons.IH [OF this, of acc] Cons.IH [OF this, of "acc @ [x]"] show ?thesis
      by simp
  qed
qed

lemma kruskalAll_distinct: "distinct acc \<Longrightarrow> distinct (kruskalAll es acc)"
proof (induction es arbitrary: acc)
  case Nil
  then show ?case
    by simp
next
  case (Cons e es)
  show ?case
  proof (cases "ends e \<in> conn (ends ` set acc)")
    case True
    with Cons show ?thesis
      by simp
  next
    case False
    have "e \<notin> set acc"
    proof
      assume "e \<in> set acc"
      then have "ends e \<in> conn (ends ` set acc)"
        by (intro conn_member imageI)
      with False show False
        by simp
    qed
    with Cons.prems have "distinct (acc @ [e])"
      by simp
    from Cons.IH [OF this] False show ?thesis
      by simp
  qed
qed

lemma kruskalAll_fixed:
  "(\<forall>e \<in> set es. ends e \<in> conn (ends ` set acc)) \<Longrightarrow> kruskalAll es acc = acc"
  by (induction es) simp_all

lemma kruskalAll_count:
  assumes "\<forall>e \<in> set es. edge_a e < n \<and> edge_b e < n"
    and "comps n (ends ` set acc) + length acc = n"
  shows "comps n (ends ` set (kruskalAll es acc)) + length (kruskalAll es acc) = n"
  using assms
proof (induction es arbitrary: acc)
  case Nil
  then show ?case
    by simp
next
  case (Cons e es)
  from Cons.prems have rest: "\<forall>e \<in> set es. edge_a e < n \<and> edge_b e < n"
    and e: "edge_a e < n" "edge_b e < n"
    by simp_all
  show ?case
  proof (cases "ends e \<in> conn (ends ` set acc)")
    case True
    with Cons.IH [OF rest Cons.prems(2)] show ?thesis
      by simp
  next
    case False
    then have "(edge_a e, edge_b e) \<notin> conn (ends ` set acc)"
      by (simp add: ends_def)
    from comps_insert_new [OF e this] Cons.prems(2)
    have "comps n (ends ` set (acc @ [e])) + length (acc @ [e]) = n"
      by (simp add: ends_def)
    from Cons.IH [OF rest this] False show ?thesis
      by simp
  qed
qed

lemma kruskalSel_eq_All:
  assumes "\<forall>e \<in> set es. edge_a e < n \<and> edge_b e < n"
    and "comps n (ends ` set acc) + length acc = n" and n: "0 < n"
  shows "kruskalSel n es acc = kruskalAll es acc"
  using assms(1,2)
proof (induction es arbitrary: acc)
  case Nil
  show ?case
    by simp
next
  case (Cons e es)
  from Cons.prems have rest: "\<forall>e \<in> set es. edge_a e < n \<and> edge_b e < n"
    and e: "edge_a e < n" "edge_b e < n"
    by simp_all
  show ?case
  proof (cases "ends e \<in> conn (ends ` set acc)")
    case True
    with Cons.IH [OF rest Cons.prems(2)] show ?thesis
      by (simp add: kruskalSel_skip)
  next
    case False
    then have "(edge_a e, edge_b e) \<notin> conn (ends ` set acc)"
      by (simp add: ends_def)
    from comps_insert_new [OF e this] Cons.prems(2)
    have cnt: "comps n (ends ` set (acc @ [e])) + length (acc @ [e]) = n"
      by (simp add: ends_def)
    show ?thesis
    proof (cases "int (length acc) + 1 = int n - 1")
      case True
      with cnt have "comps n (ends ` set (acc @ [e])) = 1"
        by simp
      with n have all: "\<forall>i < n. \<forall>j < n. (i, j) \<in> conn (ends ` set (acc @ [e]))"
        by (simp only: comps_connected)
      have "\<forall>x \<in> set es. ends x \<in> conn (ends ` set (acc @ [e]))"
      proof
        fix x
        assume "x \<in> set es"
        with rest have "edge_a x < n" "edge_b x < n"
          by simp_all
        with all have "(edge_a x, edge_b x) \<in> conn (ends ` set (acc @ [e]))"
          by blast
        then show "ends x \<in> conn (ends ` set (acc @ [e]))"
          by (simp only: ends_def)
      qed
      then have "kruskalAll es (acc @ [e]) = acc @ [e]"
        by (rule kruskalAll_fixed)
      with True False show ?thesis
        by (simp add: kruskalSel_accept)
    next
      case stop: False
      from Cons.IH [OF rest cnt] False stop show ?thesis
        by (simp add: kruskalSel_accept)
    qed
  qed
qed

lemma acyclic_edges_subset:
  assumes "acyclic_edges T" and "S \<subseteq> T"
  shows "acyclic_edges S"
  unfolding acyclic_edges_def
proof
  fix e
  assume e: "e \<in> S"
  from assms(2) have "conn (ends ` (S - {e})) \<subseteq> conn (ends ` (T - {e}))"
    by (intro conn_mono image_mono) auto
  moreover from assms e have "ends e \<notin> conn (ends ` (T - {e}))"
    by (auto simp: acyclic_edges_def)
  ultimately show "ends e \<notin> conn (ends ` (S - {e}))"
    by auto
qed

lemma forest_count:
  assumes "finite T" and "acyclic_edges T" and "\<forall>e \<in> T. edge_a e < n \<and> edge_b e < n"
  shows "comps n (ends ` T) + card T = n"
  using assms
proof (induction T rule: finite_induct)
  case empty
  show ?case
    by (simp add: comps_empty)
next
  case (insert e T)
  from insert.prems(1) have ac: "acyclic_edges T"
    by (rule acyclic_edges_subset) auto
  from insert.prems(2) have range: "\<forall>e \<in> T. edge_a e < n \<and> edge_b e < n"
    and e: "edge_a e < n" "edge_b e < n"
    by simp_all
  from insert.hyps(2) have "insert e T - {e} = T"
    by auto
  with insert.prems(1) have "ends e \<notin> conn (ends ` T)"
    by (auto simp: acyclic_edges_def)
  then have "(edge_a e, edge_b e) \<notin> conn (ends ` T)"
    by (simp add: ends_def)
  from comps_insert_new [OF e this] insert.IH [OF ac range] insert.hyps show ?case
    by (simp add: ends_def)
qed

lemma prefix_count:
  assumes fin: "finite T" and ac: "acyclic_edges T"
    and rT: "\<forall>e \<in> T. edge_a e < n \<and> edge_b e < n"
    and rp: "\<forall>e \<in> set pre. edge_a e < n \<and> edge_b e < n"
  shows "card (T \<inter> set pre) \<le> length (kruskalAll pre [])"
proof -
  let ?F = "kruskalAll pre []"
  let ?T = "T \<inter> set pre"
  have "acyclic_edges ?T"
    by (rule acyclic_edges_subset [OF ac]) simp
  with fin rT have cT: "comps n (ends ` ?T) + card ?T = n"
    by (intro forest_count) auto
  from kruskalAll_count [OF rp, of "[]"] have cF: "comps n (ends ` set ?F) + length ?F = n"
    by (simp add: comps_empty)
  have "ends ` ?T \<subseteq> conn (ends ` set ?F)"
    by (auto intro: kruskalAll_conn)
  then have "conn (ends ` ?T) \<subseteq> conn (ends ` set ?F)"
    by (rule conn_closed)
  then have "comps n (ends ` set ?F) \<le> comps n (ends ` ?T)"
    by (rule comps_mono)
  with cT cF show ?thesis
    by linarith
qed

section \<open>Comparing total distances\<close>

lemma weighted_prefix_sums:
  fixes ws xs :: "real list"
  assumes "sorted ws" and "length xs = length ws"
    and "\<forall>p \<le> length xs. 0 \<le> d + sum_list (take p xs)"
    and "d + sum_list xs = 0" and "\<forall>w \<in> set ws. c \<le> w"
  shows "(\<Sum>(w, x)\<leftarrow>zip ws xs. w * x) \<le> - c * d"
  using assms
proof (induction ws arbitrary: xs d c)
  case Nil
  then show ?case
    by simp
next
  case (Cons w ws)
  from Cons.prems(2) obtain x xs' where xs: "xs = x # xs'"
    by (cases xs) auto
  from Cons.prems(3) [rule_format, of 0] have d0: "0 \<le> d"
    by simp
  have pre: "\<forall>p \<le> length xs'. 0 \<le> (d + x) + sum_list (take p xs')"
  proof (intro allI impI)
    fix p
    assume "p \<le> length xs'"
    with Cons.prems(3) [rule_format, of "Suc p"] show "0 \<le> (d + x) + sum_list (take p xs')"
      by (simp add: xs)
  qed
  from pre [rule_format, of 0] have dx: "0 \<le> d + x"
    by simp
  from Cons.prems(1) have sorted: "sorted ws" and low: "\<forall>v \<in> set ws. w \<le> v"
    by simp_all
  from Cons.prems(2) have len: "length xs' = length ws"
    by (simp add: xs)
  from Cons.prems(4) have tot: "(d + x) + sum_list xs' = 0"
    by (simp add: xs)
  from Cons.IH [OF sorted len pre tot low]
  have "(\<Sum>(w, x)\<leftarrow>zip ws xs'. w * x) \<le> - w * (d + x)" .
  then have "(\<Sum>(w, x)\<leftarrow>zip (w # ws) xs. w * x) \<le> - w * d"
    by (simp add: xs algebra_simps)
  also from Cons.prems(5) d0 have "- w * d \<le> - c * d"
    by (simp add: mult_right_mono)
  finally show ?case .
qed

lemma sum_list_indicator:
  assumes "distinct l"
  shows "(\<Sum>e\<leftarrow>l. if e \<in> S then (1::real) else 0) = real (card (S \<inter> set l))"
  using assms
proof (induction l)
  case Nil
  show ?case
    by simp
next
  case (Cons a l)
  then have a: "a \<notin> set l" and IH: "(\<Sum>e\<leftarrow>l. if e \<in> S then (1::real) else 0) = real (card (S \<inter> set l))"
    by simp_all
  show ?case
  proof (cases "a \<in> S")
    case True
    then have "S \<inter> set (a # l) = insert a (S \<inter> set l)"
      by auto
    moreover from a have "a \<notin> S \<inter> set l"
      by simp
    ultimately have "card (S \<inter> set (a # l)) = Suc (card (S \<inter> set l))"
      by simp
    with True IH show ?thesis
      by simp
  next
    case False
    then have "S \<inter> set (a # l) = S \<inter> set l"
      by auto
    with False IH show ?thesis
      by simp
  qed
qed

lemma sum_list_restrict:
  assumes "distinct l" and "S \<subseteq> set l"
  shows "(\<Sum>e\<leftarrow>l. if e \<in> S then w e else (0::real)) = sum w S"
proof -
  from assms(1) have "(\<Sum>e\<leftarrow>l. if e \<in> S then w e else 0) = (\<Sum>e\<in>set l. if e \<in> S then w e else 0)"
    by (rule sum_list_distinct_conv_sum_set)
  also have "\<dots> = sum w (set l \<inter> S)"
    by (simp add: sum.inter_restrict)
  also from assms(2) have "set l \<inter> S = S"
    by auto
  finally show ?thesis .
qed

lemma sum_list_zip_map:
  "(\<Sum>(v, x)\<leftarrow>zip (map f l) (map g l). v * x) = (\<Sum>e\<leftarrow>l. f e * (g e :: real))"
  by (induction l) simp_all

lemma weight_le:
  fixes w :: "'a \<Rightarrow> real"
  assumes sorted: "sorted (map w es)" and dist: "distinct es"
    and F: "F \<subseteq> set es" and T: "T \<subseteq> set es"
    and pre: "\<forall>p \<le> length es. card (T \<inter> set (take p es)) \<le> card (F \<inter> set (take p es))"
    and tot: "card T = card F"
  shows "sum w F \<le> sum w T"
proof -
  let ?f = "\<lambda>e. (if e \<in> F then (1::real) else 0) - (if e \<in> T then 1 else 0)"
  let ?xs = "map ?f es"
  let ?ws = "map w es"
  have take_sum: "sum_list (take p ?xs) =
      real (card (F \<inter> set (take p es))) - real (card (T \<inter> set (take p es)))" for p
  proof -
    have "distinct (take p es)"
      using dist by simp
    then show ?thesis
      by (simp add: take_map sum_list_subtractf sum_list_indicator)
  qed
  have 1: "length ?xs = length ?ws"
    by simp
  have 2: "\<forall>p \<le> length ?xs. 0 \<le> 0 + sum_list (take p ?xs)"
    using pre by (simp add: take_sum)
  from F T have "F \<inter> set es = F" "T \<inter> set es = T"
    by auto
  with take_sum [of "length es"] tot have 3: "0 + sum_list ?xs = 0"
    by simp
  have "(\<Sum>(v, x)\<leftarrow>zip ?ws ?xs. v * x) \<le> - c * 0" if "\<forall>v \<in> set ?ws. c \<le> v" for c
    by (rule weighted_prefix_sums [OF sorted 1 2 3 that])
  moreover have "\<exists>c. \<forall>v \<in> set ?ws. c \<le> v"
  proof (cases es)
    case Nil
    then show ?thesis
      by simp
  next
    case (Cons e es')
    with sorted have "\<forall>v \<in> set ?ws. w e \<le> v"
      by auto
    then show ?thesis ..
  qed
  ultimately have "(\<Sum>(v, x)\<leftarrow>zip ?ws ?xs. v * x) \<le> 0"
    by auto
  moreover have "(\<Sum>(v, x)\<leftarrow>zip ?ws ?xs. v * x) = (\<Sum>e\<leftarrow>es. w e * ?f e)"
    by (rule sum_list_zip_map)
  moreover have "(\<Sum>e\<leftarrow>es. w e * ?f e) =
      (\<Sum>e\<leftarrow>es. if e \<in> F then w e else 0) - (\<Sum>e\<leftarrow>es. if e \<in> T then w e else 0)"
    unfolding sum_list_subtractf [symmetric]
    by (intro arg_cong [of _ _ sum_list] map_cong refl) simp
  ultimately show ?thesis
    by (simp add: sum_list_restrict [OF dist F] sum_list_restrict [OF dist T])
qed

lemma comps_lower:
  assumes "finite S"
  shows "n \<le> comps n (ends ` S) + card S"
  using assms
proof (induction S rule: finite_induct)
  case empty
  show ?case
    by (simp add: comps_empty)
next
  case (insert e S)
  from comps_insert_ge [of n "ends ` S" "edge_a e" "edge_b e"]
  have "comps n (ends ` S) \<le> comps n (ends ` insert e S) + 1"
    by (simp add: ends_def)
  with insert show ?case
    by simp
qed

lemma forest_acyclic:
  assumes dist: "distinct F" and cnt: "comps n (ends ` set F) + length F = n"
  shows "acyclic_edges (set F)"
  unfolding acyclic_edges_def
proof
  fix e
  assume e: "e \<in> set F"
  show "ends e \<notin> conn (ends ` (set F - {e}))"
  proof
    assume c: "ends e \<in> conn (ends ` (set F - {e}))"
    from e have "ends ` set F = insert (ends e) (ends ` (set F - {e}))"
      by auto
    moreover from c have "conn (insert (ends e) (ends ` (set F - {e}))) = conn (ends ` (set F - {e}))"
      by (simp add: ends_def conn_insert_same)
    ultimately have "conn (ends ` set F) = conn (ends ` (set F - {e}))"
      by simp
    then have "comps n (ends ` set F) = comps n (ends ` (set F - {e}))"
      by (simp add: comps_def)
    moreover have "n \<le> comps n (ends ` (set F - {e})) + card (set F - {e})"
      by (rule comps_lower) simp
    moreover from e dist have "card (set F - {e}) + 1 = length F"
      by (simp add: distinct_card card_Suc_Diff1 del: card_Diff_insert)
    ultimately show False
      using cnt by linarith
  qed
qed

lemma kruskalAll_take:
  assumes dist: "distinct es"
  shows "set (kruskalAll es []) \<inter> set (take p es) = set (kruskalAll (take p es) [])"
proof -
  let ?Fp = "kruskalAll (take p es) []"
  have F: "kruskalAll es [] = kruskalAll (drop p es) ?Fp"
    using kruskalAll_append [of "take p es" "drop p es" "[]"] by simp
  have 1: "set ?Fp \<subseteq> set (take p es)"
    using kruskalAll_subset [of "take p es" "[]"] by simp
  have 2: "set ?Fp \<subseteq> set (kruskalAll es [])"
    unfolding F by (rule kruskalAll_mono)
  have 3: "set (kruskalAll es []) \<subseteq> set ?Fp \<union> set (drop p es)"
    unfolding F by (rule kruskalAll_subset)
  from dist have "distinct (take p es @ drop p es)"
    by simp
  then have 4: "set (take p es) \<inter> set (drop p es) = {}"
    by (simp only: distinct_append)
  from 1 2 3 4 show ?thesis
    by blast
qed

lemma kruskal_minimal:
  assumes sorted: "sorted (map edge_distance es)" and dist: "distinct es"
    and range: "\<forall>e \<in> set es. edge_a e < n \<and> edge_b e < n"
    and T: "T \<subseteq> set es" and tree: "spanning_tree n T" and n: "0 < n"
  shows "sum edge_distance (set (kruskalAll es [])) \<le> sum edge_distance T
       \<and> length (kruskalAll es []) = n - 1"
proof -
  let ?F = "kruskalAll es []"
  from tree have fin: "finite T" and rT: "\<forall>e \<in> T. edge_a e < n \<and> edge_b e < n"
    and con: "\<forall>i < n. \<forall>j < n. (i, j) \<in> conn (ends ` T)" and ac: "acyclic_edges T"
    by (simp_all add: spanning_tree_def)
  have dF: "distinct ?F"
    by (rule kruskalAll_distinct) simp
  have sF: "set ?F \<subseteq> set es"
    using kruskalAll_subset [of es "[]"] by simp
  from kruskalAll_count [OF range, of "[]"] have cF: "comps n (ends ` set ?F) + length ?F = n"
    by (simp add: comps_empty)
  from forest_count [OF fin ac rT] have cT: "comps n (ends ` T) + card T = n" .
  from con n have c1: "comps n (ends ` T) = 1"
    by (simp only: comps_connected)
  have "ends ` T \<subseteq> conn (ends ` set ?F)"
  proof (rule image_subsetI)
    fix e
    assume "e \<in> T"
    with T have "e \<in> set es"
      by auto
    then show "ends e \<in> conn (ends ` set ?F)"
      by (rule kruskalAll_conn)
  qed
  then have sub: "conn (ends ` T) \<subseteq> conn (ends ` set ?F)"
    by (rule conn_closed)
  with con have "\<forall>i < n. \<forall>j < n. (i, j) \<in> conn (ends ` set ?F)"
    by blast
  with n have "comps n (ends ` set ?F) = 1"
    by (simp only: comps_connected)
  with cF cT c1 have len: "length ?F = n - 1" and tot: "card T = length ?F"
    by linarith+
  have pre: "\<forall>p \<le> length es. card (T \<inter> set (take p es)) \<le> card (set ?F \<inter> set (take p es))"
  proof (intro allI impI)
    fix p
    from range have rp: "\<forall>e \<in> set (take p es). edge_a e < n \<and> edge_b e < n"
      by (auto dest: in_set_takeD)
    have "distinct (kruskalAll (take p es) [])"
      by (rule kruskalAll_distinct) simp
    then have "card (set (kruskalAll (take p es) [])) = length (kruskalAll (take p es) [])"
      by (rule distinct_card)
    with prefix_count [OF fin ac rT rp]
    show "card (T \<inter> set (take p es)) \<le> card (set ?F \<inter> set (take p es))"
      by (simp add: kruskalAll_take [OF dist])
  qed
  from dF tot have "card T = card (set ?F)"
    by (simp add: distinct_card)
  from weight_le [OF sorted dist sF T pre this] len show ?thesis
    by simp
qed

section \<open>Minimality of the selected tree\<close>

lemma connectionEdges_facts:
  "sorted (map edge_distance (connectionEdges lib polys))"
  "distinct (connectionEdges lib polys)"
  "\<forall>e \<in> set (connectionEdges lib polys). edge_distance e = turf_length lib (edge_seg e)"
proof -
  show "sorted (map edge_distance (connectionEdges lib polys))"
    by (simp add: connectionEdges_def sortEdges_def)
  show "distinct (connectionEdges lib polys)"
    by (simp add: connectionEdges_def sortEdges_def distinct_map distinct_indexPairs inj_on_mkEdge)
  show "\<forall>e \<in> set (connectionEdges lib polys). edge_distance e = turf_length lib (edge_seg e)"
    by (auto simp: set_connectionEdges mkEdge_def Let_def)
qed

lemma mstDistance_toMst:
  assumes "distinct F" and "\<forall>e \<in> set F. edge_distance e = turf_length lib (edge_seg e)"
  shows "mstDistance lib (map toMst F) = sum edge_distance (set F)"
proof -
  have "mstDistance lib (map toMst F) = sum_list (map (\<lambda>e. turf_length lib (edge_seg e)) F)"
    by (simp add: mstDistance_def toMst_def comp_def)
  also from assms(2) have "\<dots> = sum_list (map edge_distance F)"
    by (intro arg_cong [of _ _ sum_list] map_cong refl) simp
  also from assms(1) have "\<dots> = sum edge_distance (set F)"
    by (rule sum_list_distinct_conv_sum_set)
  finally show ?thesis .
qed

lemma kruskal_tree:
  assumes n: "2 \<le> length polys"
  shows "kruskalSel (length polys) (connectionEdges lib polys) [] =
           kruskalAll (connectionEdges lib polys) []
       \<and> distinct (kruskalAll (connectionEdges lib polys) [])
       \<and> set (kruskalAll (connectionEdges lib polys) []) \<subseteq> set (connectionEdges lib polys)
       \<and> spanning_tree (length polys) (set (kruskalAll (connectionEdges lib polys) []))"
proof -
  let ?n = "length polys"
  let ?es = "connectionEdges lib polys"
  let ?F = "kruskalAll ?es []"
  note range = connectionEdges_range [of lib polys]
  from n have n0: "0 < ?n"
    by linarith
  have eq: "kruskalSel ?n ?es [] = ?F"
    by (rule kruskalSel_eq_All [OF range _ n0]) (simp add: comps_empty)
  have dF: "distinct ?F"
    by (rule kruskalAll_distinct) simp
  have sF: "set ?F \<subseteq> set ?es"
    using kruskalAll_subset [of ?es "[]"] by simp
  from kruskalAll_count [OF range, of "[]"] have cF: "comps ?n (ends ` set ?F) + length ?F = ?n"
    by (simp add: comps_empty)
  have "{(i, j). i < j \<and> j < ?n} \<subseteq> conn (ends ` set ?F)"
  proof
    fix p
    assume "p \<in> {(i, j). i < j \<and> j < ?n}"
    with map_ends_connectionEdges [of lib polys] obtain e where "e \<in> set ?es" "p = ends e"
      by auto
    with kruskalAll_conn [of e ?es "[]"] show "p \<in> conn (ends ` set ?F)"
      by simp
  qed
  then have con: "\<forall>i < ?n. \<forall>j < ?n. (i, j) \<in> conn (ends ` set ?F)"
    by (intro allI impI complete_connected)
  from sF range have rF: "\<forall>e \<in> set ?F. edge_a e < ?n \<and> edge_b e < ?n"
    by blast
  have "spanning_tree ?n (set ?F)"
    unfolding spanning_tree_def
    using rF con forest_acyclic [OF dF cF] by simp
  with eq dF sF show ?thesis
    by simp
qed

text \<open>
  Claim C2. Where the connector does not throw and there are \<open>n \<ge> 2\<close> shapes, the two
  loops return and Kruskal's scan of their sorted output returns; the edges that it
  selected are a spanning tree taken from that output, their total distance is the sum of
  the segment lengths of the accepted edges, and no spanning tree taken from the output
  has a smaller total distance; the output and the accepted edges are the \<open>pairs\<close> and
  the \<open>mstEdges\<close> of every result of the merge; and the merge returns where \<^verbatim>\<open>turf.union\<close>
  returns a shape.
\<close>

theorem mst_minimal:
  assumes "turf_returns lib polys" and "2 \<le> length polys"
  shows "\<exists>unsorted uf sel. edgesOuter lib polys 0 [] = Inr unsorted
           \<and> kruskalLoop (length polys) (sortEdges unsorted)
                (newUnionFind (length polys)) [] = Some (uf, map toMst sel)
           \<and> set sel \<subseteq> set (sortEdges unsorted) \<and> distinct sel
           \<and> mstDistance lib (map toMst sel) = sum edge_distance (set sel)
           \<and> spanning_tree (length polys) (set sel)
           \<and> (\<forall>T. T \<subseteq> set (sortEdges unsorted) \<and> spanning_tree (length polys) T \<longrightarrow>
                 mstDistance lib (map toMst sel) \<le> sum edge_distance T)
           \<and> (\<forall>r. mergePolygonsWithShortestCorridors lib polys opts = Some (Inr r) \<longrightarrow>
                 pairs (result_debug r) = sortEdges unsorted
                 \<and> mstEdges (result_debug r) = map toMst sel)
           \<and> ((\<forall>x y. turf_union lib x y \<noteq> None) \<longrightarrow>
                 (\<exists>r. mergePolygonsWithShortestCorridors lib polys opts = Some (Inr r)))"
proof -
  let ?n = "length polys"
  let ?es = "connectionEdges lib polys"
  let ?F = "kruskalAll ?es []"
  from kruskal_tree [OF assms(2), of lib]
  have eq: "kruskalSel ?n ?es [] = ?F" and dF: "distinct ?F" and sF: "set ?F \<subseteq> set ?es"
    and tree: "spanning_tree ?n (set ?F)"
    by simp_all
  have e: "edgesOuter lib polys 0 [] = Inr (map (mkEdge lib polys) (indexPairs ?n))"
    by (rule edgesOuter_indexPairs [OF assms(1)])
  have s: "sortEdges (map (mkEdge lib polys) (indexPairs ?n)) = ?es"
    by (simp add: connectionEdges_def)
  from kruskal_stage [of polys lib] obtain uf where
    l: "kruskalLoop ?n ?es (newUnionFind ?n) [] = Some (uf, map toMst ?F)"
    unfolding eq by (elim exE conjE)
  have p: "\<forall>r. mergePolygonsWithShortestCorridors lib polys opts = Some (Inr r) \<longrightarrow>
             pairs (result_debug r) = ?es \<and> mstEdges (result_debug r) = map toMst ?F"
    using merge_debug [OF assms] unfolding eq by blast
  have r: "(\<forall>x y. turf_union lib x y \<noteq> None) \<longrightarrow>
             (\<exists>r. mergePolygonsWithShortestCorridors lib polys opts = Some (Inr r))"
    using merge_returns [OF assms] by blast
  from sF connectionEdges_facts(3) [of lib polys]
  have "\<forall>e \<in> set ?F. edge_distance e = turf_length lib (edge_seg e)"
    by blast
  with dF have w: "mstDistance lib (map toMst ?F) = sum edge_distance (set ?F)"
    by (rule mstDistance_toMst)
  from assms(2) have n0: "0 < ?n"
    by linarith
  have min: "\<forall>T. T \<subseteq> set ?es \<and> spanning_tree ?n T \<longrightarrow>
      mstDistance lib (map toMst ?F) \<le> sum edge_distance T"
  proof (intro allI impI)
    fix T
    assume "T \<subseteq> set ?es \<and> spanning_tree ?n T"
    then have T: "T \<subseteq> set ?es" and tT: "spanning_tree ?n T"
      by simp_all
    from kruskal_minimal [OF connectionEdges_facts(1,2) connectionEdges_range T tT n0]
    show "mstDistance lib (map toMst ?F) \<le> sum edge_distance T"
      unfolding w by simp
  qed
  show ?thesis
    apply (rule exI [of _ "map (mkEdge lib polys) (indexPairs ?n)"])
    apply (rule exI [of _ uf])
    apply (rule exI [of _ ?F])
    unfolding s
    apply (intro conjI)
            apply (rule e)
           apply (rule l)
          apply (rule sF)
         apply (rule dF)
        apply (rule w)
       apply (rule tree)
      apply (rule min)
     apply (rule p)
    apply (rule r)
    done
qed

theorem mst_minimal_witness:
  "mstDistance planarTurf (mstEdges (result_debug threeDotsResult)) = 7
   \<and> mstDistance planarTurf (mstEdges (result_debug threeDotsResult))
       \<le> sum edge_distance
            {\<lparr>edge_a = 0, edge_b = 1, edge_distance = 3,
               edge_seg = \<lparr>coordinates = [(0, 0), (3, 0)]\<rparr>\<rparr>,
             \<lparr>edge_a = 1, edge_b = 2, edge_distance = 7,
               edge_seg = \<lparr>coordinates = [(3, 0), (0, 4)]\<rparr>\<rparr>}"
proof -
  let ?e1 = "\<lparr>edge_a = 0, edge_b = 1, edge_distance = 3,
               edge_seg = \<lparr>coordinates = [(0, 0), (3, 0)]\<rparr>\<rparr>"
  let ?e3 = "\<lparr>edge_a = 1, edge_b = 2, edge_distance = 7,
               edge_seg = \<lparr>coordinates = [(3, 0), (0, 4)]\<rparr>\<rparr>"
  let ?T = "{?e1, ?e3}"
  have n: "2 \<le> length threeDots" and len: "length threeDots = 3"
    by (simp_all add: threeDots_def)
  have sub: "?T \<subseteq> set (pairs (result_debug threeDotsResult))"
    by (simp add: threeDotsResult_def)
  have E: "ends ` ?T = insert (0, 1) (insert (1, 2) {})"
    by (simp add: ends_def)
  have con: "(i, j) \<in> conn (ends ` ?T)" if "i < 3" "j < 3" for i j
  proof -
    from that have "i = 0 \<or> i = 1 \<or> i = 2" and "j = 0 \<or> j = 1 \<or> j = 2"
      by linarith+
    then show ?thesis
      unfolding E by (auto simp: conn_insert conn_empty)
  qed
  have d1: "?T - {?e1} = {?e3}" and d3: "?T - {?e3} = {?e1}"
    by auto
  have a1: "ends ?e1 \<notin> conn (ends ` (?T - {?e1}))"
    unfolding d1 by (simp add: ends_def conn_insert conn_empty)
  have a3: "ends ?e3 \<notin> conn (ends ` (?T - {?e3}))"
    unfolding d3 by (simp add: ends_def conn_insert conn_empty)
  have ac: "acyclic_edges ?T"
    unfolding acyclic_edges_def
  proof
    fix e
    assume "e \<in> ?T"
    then consider "e = ?e1" | "e = ?e3"
      by blast
    then show "ends e \<notin> conn (ends ` (?T - {e}))"
    proof cases
      case 1
      show ?thesis
        unfolding 1 by (rule a1)
    next
      case 2
      show ?thesis
        unfolding 2 by (rule a3)
    qed
  qed
  have tree: "spanning_tree 3 ?T"
    unfolding spanning_tree_def using con ac by simp
  from mst_minimal [OF turf_returns_planarTurf n, of None] obtain unsorted sel where
    min: "\<forall>T. T \<subseteq> set (sortEdges unsorted) \<and> spanning_tree (length threeDots) T \<longrightarrow>
                 mstDistance planarTurf (map toMst sel) \<le> sum edge_distance T"
    and d: "\<forall>r. mergePolygonsWithShortestCorridors planarTurf threeDots None = Some (Inr r) \<longrightarrow>
              pairs (result_debug r) = sortEdges unsorted
              \<and> mstEdges (result_debug r) = map toMst sel"
    by (elim exE conjE)
  from d merge_threeDots [of None]
  have rr: "sortEdges unsorted = pairs (result_debug threeDotsResult)"
    "map toMst sel = mstEdges (result_debug threeDotsResult)"
    by simp_all
  from min [rule_format, of ?T] sub tree
  have "mstDistance planarTurf (mstEdges (result_debug threeDotsResult)) \<le> sum edge_distance ?T"
    unfolding rr len by simp
  moreover have "mstDistance planarTurf (mstEdges (result_debug threeDotsResult)) = 7"
    by (simp add: mstDistance_def threeDotsResult_def planarTurf_def taxicab_def)
  ultimately show ?thesis
    by simp
qed


end
